theory Spec2Isabelle
  imports Main "HOL-Library.Sublist" "HOL-Library.Word"
begin

section \<open>JavaScript values used by the toolkit\<close>

text \<open>
  A string is kept as the bytes of its UTF-8 form (\<open>char list\<close>); only the ASCII white
  space characters of JavaScript's \<open>trim\<close> and \<open>parseInt\<close> are modelled. The one text
  the toolkit cuts by length, the body of a response, is kept as its UTF-16 code units
  (\<open>jsstring\<close>, below), the unit in which \<open>substring\<close> counts. Numbers are integers, with
  \<open>NaN\<close> as the one non-integer value the modelled code can produce (from \<open>parseInt\<close>).
\<close>

datatype jsnum = Num int | NaN

datatype json =
    JNull
  | JBool bool
  | JNum int
  | JStr string
  | JArr "json list"
  | JObj "(string \<times> json) list"

text \<open>JavaScript truthiness of a value (\<open>if (v)\<close>).\<close>

fun truthy :: "json \<Rightarrow> bool" where
  "truthy JNull = False"
| "truthy (JBool b) = b"
| "truthy (JNum n) = (n \<noteq> 0)"
| "truthy (JStr s) = (s \<noteq> [])"
| "truthy (JArr xs) = True"
| "truthy (JObj kvs) = True"

text \<open>
  Property read \<open>v.name\<close> on a value that is not null: an object yields the property
  or \<open>undefined\<close> (\<open>None\<close>); the names read by the toolkit (\<open>id\<close>, \<open>key\<close>,
  \<open>homepage\<close>) are undefined on strings, numbers, booleans and arrays.
\<close>

fun get_prop :: "json \<Rightarrow> string \<Rightarrow> json option" where
  "get_prop (JObj kvs) name = map_of kvs name"
| "get_prop v name = None"

text \<open>\<open>a || b\<close> on an optional string and a string: the empty string is falsy.\<close>

fun or_str :: "string option \<Rightarrow> string \<Rightarrow> string" where
  "or_str None b = b"
| "or_str (Some a) b = (if a = [] then b else a)"

definition is_ws :: "char \<Rightarrow> bool" where
  "is_ws c = (c \<in> set [CHR 0x09, CHR 0x0A, CHR 0x0B, CHR 0x0C, CHR 0x0D, CHR '' ''])"

definition trim :: "string \<Rightarrow> string" where
  "trim s = rev (dropWhile is_ws (rev (dropWhile is_ws s)))"

text \<open>\<open>s.split(c)\<close> for a one-character separator: the empty string gives one empty piece.\<close>

fun split_on :: "char \<Rightarrow> string \<Rightarrow> string list" where
  "split_on c [] = [[]]"
| "split_on c (x # xs) =
     (if x = c then [] # split_on c xs
      else (case split_on c xs of [] \<Rightarrow> [[x]] | l # ls \<Rightarrow> (x # l) # ls))"

text \<open>\<open>s.indexOf(c)\<close>, with \<open>None\<close> for \<open>-1\<close>.\<close>

fun index_of :: "char \<Rightarrow> string \<Rightarrow> nat option" where
  "index_of c [] = None"
| "index_of c (x # xs) = (if x = c then Some 0 else map_option Suc (index_of c xs))"

text \<open>\<open>hay.includes(needle)\<close>, on bytes and on code units alike.\<close>

fun str_includes :: "'a list \<Rightarrow> 'a list \<Rightarrow> bool" where
  "str_includes [] needle = (needle = [])"
| "str_includes (h # hs) needle = (prefix needle (h # hs) \<or> str_includes hs needle)"

definition is_digit :: "char \<Rightarrow> bool" where
  "is_digit c = (48 \<le> (of_char c :: nat) \<and> (of_char c :: nat) \<le> 57)"

definition digit_val :: "char \<Rightarrow> int" where
  "digit_val c = int (of_char c) - 48"

text \<open>
  \<open>parseInt(s, 10)\<close>: leading white space is skipped, one sign is read, then the longest
  run of decimal digits; no digit at all gives \<open>NaN\<close>. What follows the digits is ignored.
\<close>

definition parseInt :: "string \<Rightarrow> jsnum" where
  "parseInt s =
     (let s1 = dropWhile is_ws s;
          sign = (case s1 of [] \<Rightarrow> 1 | c # r \<Rightarrow> if c = CHR ''-'' then - 1 else (1::int));
          s2 = (case s1 of [] \<Rightarrow> [] | c # r \<Rightarrow> if c = CHR ''-'' \<or> c = CHR ''+'' then r else s1);
          ds = takeWhile is_digit s2
      in if ds = [] then NaN else Num (sign * foldl (\<lambda>a c. 10 * a + digit_val c) 0 ds))"

text \<open>Decimal text of a natural number, as a template literal prints a status code.\<close>

fun digits_of :: "nat \<Rightarrow> string" where
  "digits_of n =
     (if n < 10 then [char_of (48 + n)]
      else digits_of (n div 10) @ [char_of (48 + n mod 10)])"

declare digits_of.simps [simp del]

subsection \<open>Base64 (\<open>Buffer.from(s).toString('base64')\<close>)\<close>

definition b64_alphabet :: string where
  "b64_alphabet = ''ABCDEFGHIJKLMNOPQRSTUVWXYZabcdefghijklmnopqrstuvwxyz0123456789+/''"

definition b64_char :: "nat \<Rightarrow> char" where
  "b64_char n = b64_alphabet ! n"

fun b64_enc :: "nat list \<Rightarrow> string" where
  "b64_enc [] = []"
| "b64_enc [a] = [b64_char (a div 4), b64_char ((a mod 4) * 16), CHR ''='', CHR ''='']"
| "b64_enc [a, b] =
     [b64_char (a div 4), b64_char ((a mod 4) * 16 + b div 16), b64_char ((b mod 16) * 4),
      CHR ''='']"
| "b64_enc (a # b # c # rest) =
     [b64_char (a div 4), b64_char ((a mod 4) * 16 + b div 16),
      b64_char ((b mod 16) * 4 + c div 64), b64_char (c mod 64)] @ b64_enc rest"

definition base64 :: "string \<Rightarrow> string" where
  "base64 s = b64_enc (map of_char s)"

subsection \<open>Text in UTF-16 code units\<close>

text \<open>
  A JavaScript string is a sequence of 16-bit code units; \<open>s.substring(0, n)\<close> is
  \<open>take n\<close> on it, whatever the units are. \<open>units\<close> gives the code units of a text of
  ASCII characters.
\<close>

type_synonym jsstring = "16 word list"

definition units :: "string \<Rightarrow> jsstring" where
  "units s = map (\<lambda>c. of_nat (of_char c)) s"

text \<open>
  The UTF-8 form of a JavaScript string, where it joins the strings kept as bytes: a unit
  below \<open>0x80\<close> is one byte, one below \<open>0x800\<close> two, any other three, and a high
  surrogate followed by a low one is the four bytes of their code point. (A surrogate
  without its partner, which \<open>substring\<close> can leave at the cut, is written in three bytes
  like any other unit.)
\<close>

definition is_high :: "16 word \<Rightarrow> bool" where
  "is_high u = (0xD800 \<le> unat u \<and> unat u < 0xDC00)"

definition is_low :: "16 word \<Rightarrow> bool" where
  "is_low u = (0xDC00 \<le> unat u \<and> unat u < 0xE000)"

definition unit_bytes :: "16 word \<Rightarrow> string" where
  "unit_bytes u =
     (let n = unat u in
      if n < 0x80 then [char_of n]
      else if n < 0x800 then [char_of (0xC0 + n div 64), char_of (0x80 + n mod 64)]
      else [char_of (0xE0 + n div 4096), char_of (0x80 + n div 64 mod 64), char_of (0x80 + n mod 64)])"

definition pair_bytes :: "16 word \<Rightarrow> 16 word \<Rightarrow> string" where
  "pair_bytes hi lo =
     (let n = 0x10000 + (unat hi - 0xD800) * 1024 + (unat lo - 0xDC00) in
      [char_of (0xF0 + n div 262144), char_of (0x80 + n div 4096 mod 64),
       char_of (0x80 + n div 64 mod 64), char_of (0x80 + n mod 64)])"

fun utf8 :: "jsstring \<Rightarrow> string" where
  "utf8 [] = []"
| "utf8 [u] = unit_bytes u"
| "utf8 (u # v # us) =
     (if is_high u \<and> is_low v then pair_bytes u v @ utf8 us
      else unit_bytes u @ utf8 (v # us))"

text \<open>Every character of a string is ASCII, and: no byte of a string is.\<close>

definition ascii :: "string \<Rightarrow> bool" where
  "ascii s = list_all (\<lambda>c. (of_char c :: nat) < 128) s"

definition high_bytes :: "string \<Rightarrow> bool" where
  "high_bytes bs = list_all (\<lambda>b. 128 \<le> (of_char b :: nat)) bs"

section \<open>Errors\<close>

text \<open>
  Every error of the toolkit is a plain \<open>Error\<close> object; the constructors record where it
  was made. \<open>HttpError\<close> is the one that carries \<open>statusCode\<close> and \<open>body\<close>, the text
  of the response. Its message holds the first 500 code units of that text
  (\<open>data.substring(0, 500)\<close>), that of an upload error the first 200.
\<close>

datatype error =
    ConfigError string
  | HttpError nat jsstring
  | UploadError nat jsstring
  | NetError string
  | FsError string
  | TypeError string

fun message :: "error \<Rightarrow> string" where
  "message (ConfigError m) = m"
| "message (HttpError st d) = ''HTTP '' @ digits_of st @ '': '' @ utf8 (take 500 d)"
| "message (UploadError st d) = ''Upload failed: HTTP '' @ digits_of st @ '': '' @ utf8 (take 200 d)"
| "message (NetError m) = m"
| "message (FsError m) = m"
| "message (TypeError m) = m"

fun statusCode_of :: "error \<Rightarrow> nat option" where
  "statusCode_of (HttpError st d) = Some st"
| "statusCode_of e = None"

text \<open>
  A call either throws before returning a promise, or returns a promise that is rejected
  or resolved. \<open>await\<close> inside an \<open>async\<close> function sees both failures as an exception.
\<close>

datatype 'a outcome = Thrown error | Rejected error | Resolved 'a

fun await :: "'a outcome \<times> 's \<Rightarrow> (error + 'a) \<times> 's" where
  "await (Thrown e, s) = (Inl e, s)"
| "await (Rejected e, s) = (Inl e, s)"
| "await (Resolved v, s) = (Inr v, s)"

section \<open>The process and its environment\<close>

record atlassian_config =
  at_domain :: string
  at_email :: string
  at_token :: string

record screenshot_config =
  ss_baseUrl :: string
  ss_dir :: string
  ss_width :: jsnum
  ss_height :: jsnum
  ss_scale :: jsnum

record auth_config =
  au_email :: string
  au_password :: string
  au_provider :: string

record config =
  atlassian :: atlassian_config
  screenshot :: screenshot_config
  auth :: auth_config

text \<open>The getter \<open>config.atlassian.auth\<close>.\<close>

definition atlassian_auth :: "atlassian_config \<Rightarrow> string" where
  "atlassian_auth a = base64 (at_email a @ '':'' @ at_token a)"

datatype fsnode = File string | Dir

text \<open>
  What is written to a request: nothing, \<open>JSON.stringify\<close> of a value (kept as the
  value), or the bytes of a buffer.
\<close>

datatype wire = NoBody | JsonBody json | RawBody string

record request =
  req_method :: string
  req_hostname :: string
  req_path :: string
  req_headers :: "(string \<times> string) list"
  req_body :: wire

text \<open>
  A response as the client reads it: the status, the \<open>retry-after\<close> header, the body
  text \<open>data\<close> that the chunks add up to, and what \<open>JSON.parse\<close> makes of that text
  (\<open>None\<close> when it throws). The other outcome of an exchange is the request's \<open>error\<close>
  event.
\<close>

record response =
  statusCode :: nat
  retry_after :: "string option"
  data :: jsstring
  parsed :: "json option"

datatype exchange = Answer response | Failure string

datatype logline =
    RateLimited jsnum int
  | CreatingProject string string
  | ProjectCreated "json option" "json option"
  | ProjectExists string
  | IssueCreated "json option" string
  | ErrorCreating string string
  | ErrorCreatingChild string string
  | CreatingSpace string string
  | SpaceCreated json
  | SpaceExists string
  | CreatingPage string "json option"
  | PageCreated "json option"

datatype event = Sent request | Timer jsnum | Log logline

text \<open>
  The state of one process: the module variable \<open>_config\<close>, the file system, the working
  directory and \<open>process.env\<close>; the backend, as the answers it gives to the successive
  requests (\<open>script\<close>, read at \<open>cursor\<close>); and the trace of what the process did.
\<close>

record world =
  cached :: "config option"
  files :: "string \<Rightarrow> fsnode option"
  cwd :: string
  penv :: "string \<Rightarrow> string option"
  script :: "nat \<Rightarrow> exchange"
  cursor :: nat
  trace :: "event list"

section \<open>config.mjs\<close>

definition env_line :: "(string \<Rightarrow> string option) \<Rightarrow> string \<Rightarrow> (string \<Rightarrow> string option)" where
  "env_line env line =
     (let trimmed = trim line in
      if trimmed = [] \<or> prefix ''#'' trimmed then env
      else (case index_of CHR ''='' trimmed of
              None \<Rightarrow> env
            | Some eqIdx \<Rightarrow>
                env(trim (take eqIdx trimmed) \<mapsto> trim (drop (eqIdx + 1) trimmed))))"

definition parse_env :: "string \<Rightarrow> (string \<Rightarrow> string option)" where
  "parse_env content = foldl env_line Map.empty (split_on CHR 0x0A content)"

text \<open>\<open>path.resolve(process.cwd(), '.env')\<close>.\<close>

definition default_env_path :: "string \<Rightarrow> string" where
  "default_env_path d = (if d = ''/'' then ''/.env'' else d @ ''/.env'')"

definition get :: "(string \<Rightarrow> string option) \<Rightarrow> (string \<Rightarrow> string option) \<Rightarrow> string \<Rightarrow> string \<Rightarrow> string" where
  "get pe env key fallback = or_str (pe key) (or_str (env key) fallback)"

definition make_config :: "(string \<Rightarrow> string option) \<Rightarrow> (string \<Rightarrow> string option) \<Rightarrow> config" where
  "make_config pe env =
     \<lparr> atlassian = \<lparr> at_domain = get pe env ''ATLASSIAN_DOMAIN'' [],
                     at_email = get pe env ''ATLASSIAN_EMAIL'' [],
                     at_token = get pe env ''ATLASSIAN_API_TOKEN'' [] \<rparr>,
       screenshot = \<lparr> ss_baseUrl = get pe env ''APP_BASE_URL'' [],
                      ss_dir = get pe env ''SCREENSHOT_DIR'' ''./screenshots'',
                      ss_width = parseInt (get pe env ''SCREENSHOT_WIDTH'' ''1440''),
                      ss_height = parseInt (get pe env ''SCREENSHOT_HEIGHT'' ''900''),
                      ss_scale = parseInt (get pe env ''SCREENSHOT_SCALE'' ''2'') \<rparr>,
       auth = \<lparr> au_email = get pe env ''AUTH_EMAIL'' [],
                au_password = get pe env ''AUTH_PASSWORD'' [],
                au_provider = get pe env ''AUTH_PROVIDER'' ''clerk'' \<rparr> \<rparr>"

text \<open>
  \<open>loadConfig(configPath)\<close>: the cached value if there is one; otherwise the \<open>.env\<close> file
  is read when it exists (reading a directory throws), merged under \<open>process.env\<close>, and
  the result is stored in \<open>_config\<close>.
\<close>

definition loadConfig :: "string option \<Rightarrow> world \<Rightarrow> (error + config) \<times> world" where
  "loadConfig configPath w =
     (case cached w of
        Some c \<Rightarrow> (Inr c, w)
      | None \<Rightarrow>
          (let envPath = or_str configPath (default_env_path (cwd w)) in
           case files w envPath of
             Some Dir \<Rightarrow> (Inl (FsError ''EISDIR: illegal operation on a directory, read''), w)
           | Some (File content) \<Rightarrow>
               (let c = make_config (penv w) (parse_env content) in (Inr c, w\<lparr>cached := Some c\<rparr>))
           | None \<Rightarrow>
               (let c = make_config (penv w) Map.empty in (Inr c, w\<lparr>cached := Some c\<rparr>))))"

definition resetConfig :: "world \<Rightarrow> world" where
  "resetConfig w = w\<lparr>cached := None\<rparr>"

section \<open>atlassian-client.mjs\<close>

text \<open>
  Setting a property of an object literal: an existing key keeps its place, a new key
  goes last. \<open>{...base, ...extra}\<close> sets the properties of \<open>extra\<close> in order.
\<close>

fun obj_set :: "('k \<times> 'v) list \<Rightarrow> 'k \<Rightarrow> 'v \<Rightarrow> ('k \<times> 'v) list" where
  "obj_set [] k v = [(k, v)]"
| "obj_set ((k', v') # kvs) k v =
     (if k' = k then (k, v) # kvs else (k', v') # obj_set kvs k v)"

definition obj_spread :: "('k \<times> 'v) list \<Rightarrow> ('k \<times> 'v) list \<Rightarrow> ('k \<times> 'v) list" where
  "obj_spread base extra = foldl (\<lambda>obj kv. obj_set obj (fst kv) (snd kv)) base extra"

record opts =
  opt_domain :: "string option"
  opt_auth :: "string option"
  opt_headers :: "(string \<times> string) list"
  retries :: "int option"

text \<open>The default \<open>opts = {}\<close>.\<close>

definition no_opts :: opts where
  "no_opts = \<lparr> opt_domain = None, opt_auth = None, opt_headers = [], retries = None \<rparr>"

definition emit :: "event list \<Rightarrow> world \<Rightarrow> world" where
  "emit evs w = w\<lparr>trace := trace w @ evs\<rparr>"

text \<open>
  \<open>https.request(options, ...)\<close> followed by \<open>req.end()\<close>: the request goes out and the
  backend's next answer comes back.
\<close>

definition send :: "request \<Rightarrow> world \<Rightarrow> exchange \<times> world" where
  "send req w = (script w (cursor w), w\<lparr>cursor := Suc (cursor w), trace := trace w @ [Sent req]\<rparr>)"

text \<open>\<open>try { resolve(JSON.parse(data)); } catch { resolve(data); }\<close>\<close>

definition payload_of :: "response \<Rightarrow> json" where
  "payload_of res = (case parsed res of Some j \<Rightarrow> j | None \<Rightarrow> JStr (utf8 (data res)))"

definition is_2xx :: "response \<Rightarrow> bool" where
  "is_2xx res = (200 \<le> statusCode res \<and> statusCode res < 300)"

fun times1000 :: "jsnum \<Rightarrow> jsnum" where
  "times1000 (Num n) = Num (n * 1000)"
| "times1000 NaN = NaN"

definition wire_of :: "json option \<Rightarrow> wire" where
  "wire_of body = (case body of None \<Rightarrow> NoBody | Some b \<Rightarrow> if truthy b then JsonBody b else NoBody)"

text \<open>The \<open>options\<close> of \<open>https.request\<close> in \<open>atlassianRequest\<close>, and the body written.\<close>

definition request_options :: "string \<Rightarrow> string \<Rightarrow> string \<Rightarrow> string \<Rightarrow> (string \<times> string) list \<Rightarrow> json option \<Rightarrow> request" where
  "request_options method domain path credential headers body =
     \<lparr> req_method = method, req_hostname = domain, req_path = path,
       req_headers = obj_spread
         [(''Authorization'', ''Basic '' @ credential),
          (''Accept'', ''application/json''),
          (''Content-Type'', ''application/json'')] headers,
       req_body = wire_of body \<rparr>"

definition max_retries :: "opts \<Rightarrow> int" where
  "max_retries opts = (case retries opts of None \<Rightarrow> 3 | Some n \<Rightarrow> n)"

text \<open>
  \<open>atlassianRequest(method, path, body, opts)\<close>. The two configuration checks throw
  before the promise is made. On a 429 with retries left the call logs, sets a timer of
  \<open>retryAfter * 1000\<close> and calls itself with \<open>retries: maxRetries - 1\<close>; the promise
  settles as that call's promise does. (That inner call runs in a timer callback, where a
  throw would not reach the promise; it cannot throw, see \<open>atlassianRequest_not_thrown\<close>.)
\<close>

function atlassianRequest :: "string \<Rightarrow> string \<Rightarrow> json option \<Rightarrow> opts \<Rightarrow> world \<Rightarrow> json outcome \<times> world" where
  "atlassianRequest method path body opts w =
     (case loadConfig None w of
        (Inl e, w0) \<Rightarrow> (Thrown e, w0)
      | (Inr config, w0) \<Rightarrow>
          (let domain = or_str (opt_domain opts) (at_domain (atlassian config));
               auth = or_str (opt_auth opts) (atlassian_auth (atlassian config));
               maxRetries = max_retries opts
           in if domain = [] then
                (Thrown (ConfigError ''ATLASSIAN_DOMAIN not set. Configure in .env or environment.''), w0)
              else if auth = [] \<or> auth = ''Og=='' then
                (Thrown (ConfigError ''ATLASSIAN_EMAIL and ATLASSIAN_API_TOKEN not set.''), w0)
              else
                (case send (request_options method domain path auth (opt_headers opts) body) w0 of
                   (Failure m, w1) \<Rightarrow> (Rejected (NetError m), w1)
                 | (Answer res, w1) \<Rightarrow>
                     if is_2xx res then (Resolved (payload_of res), w1)
                     else if statusCode res = 429 \<and> maxRetries > 0 then
                       (let retryAfter = parseInt (or_str (retry_after res) ''5'')
                        in atlassianRequest method path body (opts\<lparr>retries := Some (maxRetries - 1)\<rparr>)
                             (emit [Log (RateLimited retryAfter maxRetries), Timer (times1000 retryAfter)] w1))
                     else (Rejected (HttpError (statusCode res) (data res)), w1))))"
  by pat_completeness auto
termination
  by (relation "measure (\<lambda>(method, path, body, opts, w). nat (max_retries opts))")
     (auto simp: max_retries_def)

declare atlassianRequest.simps [simp del]

text \<open>The multipart body of \<open>uploadAttachment\<close>: header, file bytes, footer.\<close>

definition multipart_body :: "string \<Rightarrow> string \<Rightarrow> string \<Rightarrow> string" where
  "multipart_body boundary filename fileData =
     (let header = ''--'' @ boundary @ [CHR 0x0D, CHR 0x0A] @
                   ''Content-Disposition: form-data; name='' @ [CHR 0x22] @ ''file'' @ [CHR 0x22] @
                   ''; filename='' @ [CHR 0x22] @ filename @ [CHR 0x22] @ [CHR 0x0D, CHR 0x0A] @
                   ''Content-Type: image/png'' @ [CHR 0x0D, CHR 0x0A, CHR 0x0D, CHR 0x0A];
          footer = [CHR 0x0D, CHR 0x0A] @ ''--'' @ boundary @ ''--'' @ [CHR 0x0D, CHR 0x0A]
      in header @ fileData @ footer)"

text \<open>The \<open>options\<close> of the first request of \<open>uploadAttachment\<close>, with the body written.\<close>

definition upload_options :: "string \<Rightarrow> string \<Rightarrow> string \<Rightarrow> string \<Rightarrow> string \<Rightarrow> request" where
  "upload_options domain apiPath credential boundary body =
     \<lparr> req_method = ''PUT'', req_hostname = domain, req_path = apiPath,
       req_headers =
         [(''Authorization'', ''Basic '' @ credential),
          (''Content-Type'', ''multipart/form-data; boundary='' @ boundary),
          (''X-Atlassian-Token'', ''nocheck''),
          (''Content-Length'', digits_of (length body))],
       req_body = RawBody body \<rparr>"

text \<open>
  \<open>uploadAttachment(apiPath, filepath, filename, opts)\<close>; \<open>rnd\<close> is what
  \<open>Math.random().toString(36).substr(2)\<close> yields in this call. The file is read inside
  the promise, so a read error rejects it. On 404 or 400 the same options and body are
  sent again with the method set to \<open>POST\<close>.
\<close>

definition uploadAttachment :: "string \<Rightarrow> string \<Rightarrow> string \<Rightarrow> opts \<Rightarrow> string \<Rightarrow> world \<Rightarrow> json outcome \<times> world" where
  "uploadAttachment apiPath filepath filename opts rnd w =
     (case loadConfig None w of
        (Inl e, w0) \<Rightarrow> (Thrown e, w0)
      | (Inr config, w0) \<Rightarrow>
          (let domain = or_str (opt_domain opts) (at_domain (atlassian config));
               auth = or_str (opt_auth opts) (atlassian_auth (atlassian config))
           in case files w0 filepath of
                None \<Rightarrow> (Rejected (FsError ''ENOENT: no such file or directory, open''), w0)
              | Some Dir \<Rightarrow> (Rejected (FsError ''EISDIR: illegal operation on a directory, read''), w0)
              | Some (File fileData) \<Rightarrow>
                  (let boundary = ''----FormBoundary'' @ rnd;
                       body = multipart_body boundary filename fileData;
                       options = upload_options domain apiPath auth boundary body
                   in case send options w0 of
                        (Failure m, w1) \<Rightarrow> (Rejected (NetError m), w1)
                      | (Answer res, w1) \<Rightarrow>
                          if is_2xx res then (Resolved (payload_of res), w1)
                          else if statusCode res = 404 \<or> statusCode res = 400 then
                            (case send (options\<lparr>req_method := ''POST''\<rparr>) w1 of
                               (Failure m2, w2) \<Rightarrow> (Rejected (NetError m2), w2)
                             | (Answer res2, w2) \<Rightarrow>
                                 if is_2xx res2 then (Resolved (payload_of res2), w2)
                                 else (Rejected (UploadError (statusCode res2) (data res2)), w2))
                          else (Rejected (UploadError (statusCode res) (data res)), w1))))"

section \<open>jira.mjs\<close>

definition API_V3 :: string where
  "API_V3 = ''/rest/api/3''"

text \<open>\<open>if (delayMs > 0) await new Promise(r => setTimeout(r, delayMs))\<close>\<close>

definition pause :: "int \<Rightarrow> world \<Rightarrow> world" where
  "pause delayMs w = (if delayMs > 0 then emit [Timer (Num delayMs)] w else w)"

text \<open>The test of the \<open>catch\<close> blocks of \<open>createProject\<close> and \<open>createSpace\<close>.\<close>

definition already_exists :: "error \<Rightarrow> bool" where
  "already_exists e = (statusCode_of e = Some 409 \<or> str_includes (message e) ''already exists'')"




record issue_opts =
  io_priority :: "string option"
  io_labels :: "string list option"
  io_components :: "string list option"
  io_parentKey :: "json option"
  io_assigneeId :: "string option"
  io_storyPoints :: "int option"
  io_fields :: "(string \<times> json) list option"

definition adf_paragraph :: "string \<Rightarrow> json" where
  "adf_paragraph text =
     JObj [(''type'', JStr ''doc''), (''version'', JNum 1),
           (''content'', JArr [JObj [(''type'', JStr ''paragraph''),
              (''content'', JArr [JObj [(''type'', JStr ''text''), (''text'', JStr text)]])]])]"

definition issue_fields :: "string \<Rightarrow> string \<Rightarrow> string \<Rightarrow> json \<Rightarrow> issue_opts \<Rightarrow> (string \<times> json) list" where
  "issue_fields projectKey issueType summary description opts =
     (let f0 = obj_spread
                 [(''project'', JObj [(''key'', JStr projectKey)]),
                  (''issuetype'', JObj [(''name'', JStr issueType)]),
                  (''summary'', JStr summary),
                  (''description'', (case description of JStr text \<Rightarrow> adf_paragraph text | d \<Rightarrow> d))]
                 (case io_fields opts of None \<Rightarrow> [] | Some fs \<Rightarrow> fs);
          f1 = (case io_priority opts of
                  Some p \<Rightarrow> if p \<noteq> [] then obj_set f0 ''priority'' (JObj [(''name'', JStr p)]) else f0
                | None \<Rightarrow> f0);
          f2 = (case io_labels opts of
                  Some ls \<Rightarrow> obj_set f1 ''labels'' (JArr (map JStr ls))
                | None \<Rightarrow> f1);
          f3 = (case io_components opts of
                  Some cs \<Rightarrow> obj_set f2 ''components'' (JArr (map (\<lambda>c. JObj [(''name'', JStr c)]) cs))
                | None \<Rightarrow> f2);
          f4 = (case io_parentKey opts of
                  Some k \<Rightarrow> if truthy k then obj_set f3 ''parent'' (JObj [(''key'', k)]) else f3
                | None \<Rightarrow> f3);
          f5 = (case io_assigneeId opts of
                  Some a \<Rightarrow> if a \<noteq> [] then obj_set f4 ''assignee'' (JObj [(''accountId'', JStr a)]) else f4
                | None \<Rightarrow> f4)
      in (case io_storyPoints opts of
            Some n \<Rightarrow> if n \<noteq> 0 then obj_set f5 ''story_points'' (JNum n) else f5
          | None \<Rightarrow> f5))"

definition createIssue :: "string \<Rightarrow> string \<Rightarrow> string \<Rightarrow> json \<Rightarrow> issue_opts \<Rightarrow> world \<Rightarrow> (error + json) \<times> world" where
  "createIssue projectKey issueType summary description opts w =
     (let payload = JObj [(''fields'', JObj (issue_fields projectKey issueType summary description opts))]
      in case await (atlassianRequest ''POST'' (API_V3 @ ''/issue'') (Some payload) no_opts w) of
           (Inl e, w1) \<Rightarrow> (Inl e, w1)
         | (Inr result, w1) \<Rightarrow>
             if result = JNull then (Inl (TypeError ''Cannot read properties of null (reading 'key')''), w1)
             else (Inr result, emit [Log (IssueCreated (get_prop result ''key'') summary)] w1))"

text \<open>A node of the \<open>issues\<close> argument of \<open>createIssueTree\<close>; absent properties are \<open>None\<close>.\<close>

datatype issue =
  Issue (i_type: "string option") (i_summary: string) (i_description: "json option")
        (i_priority: "string option") (i_labels: "string list option")
        (i_components: "string list option") (i_fields: "(string \<times> json) list option")
        (i_children: "issue list")

text \<open>\<open>issue.description || ''\<close>\<close>

definition description_or_empty :: "json option \<Rightarrow> json" where
  "description_or_empty d = (case d of None \<Rightarrow> JStr [] | Some v \<Rightarrow> if truthy v then v else JStr [])"

text \<open>
  The inner loop of \<open>createIssueTree\<close> over \<open>issue.children\<close>, with the array
  \<open>created\<close> and the world as its state. A child that fails is logged and skipped.
\<close>

fun create_children :: "string \<Rightarrow> json \<Rightarrow> int \<Rightarrow> issue list \<Rightarrow> json list \<times> world \<Rightarrow> json list \<times> world" where
  "create_children projectKey result delayMs [] (created, w) = (created, w)"
| "create_children projectKey result delayMs (child # rest) (created, w) =
     (case createIssue projectKey (or_str (i_type child) ''Sub-task'') (i_summary child)
             (description_or_empty (i_description child))
             \<lparr> io_priority = i_priority child, io_labels = i_labels child,
               io_components = i_components child, io_parentKey = get_prop result ''key'',
               io_assigneeId = None, io_storyPoints = None, io_fields = i_fields child \<rparr> w of
        (Inr childResult, w1) \<Rightarrow>
          create_children projectKey result delayMs rest (created @ [childResult], pause delayMs w1)
      | (Inl e, w1) \<Rightarrow>
          create_children projectKey result delayMs rest
            (created, emit [Log (ErrorCreatingChild (i_summary child) (message e))] w1))"

text \<open>The outer loop of \<open>createIssueTree\<close> over \<open>issues\<close>.\<close>

fun create_issues :: "string \<Rightarrow> int \<Rightarrow> issue list \<Rightarrow> json list \<times> world \<Rightarrow> json list \<times> world" where
  "create_issues projectKey delayMs [] (created, w) = (created, w)"
| "create_issues projectKey delayMs (issue # rest) (created, w) =
     (case createIssue projectKey (or_str (i_type issue) ''Story'') (i_summary issue)
             (description_or_empty (i_description issue))
             \<lparr> io_priority = i_priority issue, io_labels = i_labels issue,
               io_components = i_components issue, io_parentKey = None,
               io_assigneeId = None, io_storyPoints = None, io_fields = i_fields issue \<rparr> w of
        (Inr result, w1) \<Rightarrow>
          create_issues projectKey delayMs rest
            (if i_children issue \<noteq> []
             then create_children projectKey result delayMs (i_children issue)
                    (created @ [result], pause delayMs w1)
             else (created @ [result], pause delayMs w1))
      | (Inl e, w1) \<Rightarrow>
          create_issues projectKey delayMs rest
            (created, emit [Log (ErrorCreating (i_summary issue) (message e))] w1))"

text \<open>\<open>createIssueTree(projectKey, issues, delayMs = 200)\<close> returns the array \<open>created\<close>.\<close>

definition createIssueTree :: "string \<Rightarrow> issue list \<Rightarrow> int option \<Rightarrow> world \<Rightarrow> json list \<times> world" where
  "createIssueTree projectKey issues delayMs w =
     create_issues projectKey (case delayMs of None \<Rightarrow> 200 | Some d \<Rightarrow> d) issues ([], w)"

section \<open>confluence.mjs\<close>

definition API :: string where
  "API = ''/wiki/rest/api''"




text \<open>Text of a value inside a template literal; \<open>None\<close> is \<open>undefined\<close>.\<close>

fun js_string :: "json \<Rightarrow> string" where
  "js_string JNull = ''null''"
| "js_string (JBool b) = (if b then ''true'' else ''false'')"
| "js_string (JNum n) = (if n < 0 then ''-'' @ digits_of (nat (- n)) else digits_of (nat n))"
| "js_string (JStr s) = s"
| "js_string (JArr xs) =
     drop 1 (concat (map (\<lambda>x. '','' @ (if x = JNull then [] else js_string x)) xs))"
| "js_string (JObj kvs) = ''[object Object]''"

definition template_text :: "json option \<Rightarrow> string" where
  "template_text v = (case v of None \<Rightarrow> ''undefined'' | Some j \<Rightarrow> js_string j)"

text \<open>
  \<open>createPage(spaceKey, title, body, parentId = null, labels = [])\<close>; a \<open>parentId\<close> of
  \<open>None\<close> is null or undefined. Errors of the label request are ignored.
\<close>

definition createPage :: "string \<Rightarrow> string \<Rightarrow> string \<Rightarrow> json option \<Rightarrow> string list \<Rightarrow> world \<Rightarrow> (error + json) \<times> world" where
  "createPage spaceKey title body parentId labels w =
     (let ancestors = (case parentId of
                         None \<Rightarrow> []
                       | Some pid \<Rightarrow> if truthy pid then [(''ancestors'', JArr [JObj [(''id'', pid)]])] else []);
          payload = JObj ([(''type'', JStr ''page''), (''title'', JStr title),
                           (''space'', JObj [(''key'', JStr spaceKey)]),
                           (''body'', JObj [(''storage'',
                              JObj [(''value'', JStr body), (''representation'', JStr ''storage'')])])] @
                          ancestors)
      in case await (atlassianRequest ''POST'' (API @ ''/content'') (Some payload) no_opts
                       (emit [Log (CreatingPage title
                                (case parentId of None \<Rightarrow> None
                                 | Some pid \<Rightarrow> if truthy pid then Some pid else None))] w)) of
           (Inl e, w1) \<Rightarrow> (Inl e, w1)
         | (Inr result, w1) \<Rightarrow>
             if result = JNull then (Inl (TypeError ''Cannot read properties of null (reading 'id')''), w1)
             else
               (let w2 = emit [Log (PageCreated (get_prop result ''id''))] w1
                in if length labels > 0 then
                     (Inr result,
                      snd (await (atlassianRequest ''POST''
                             (API @ ''/content/'' @ template_text (get_prop result ''id'') @ ''/label'')
                             (Some (JArr (map (\<lambda>l. JObj [(''prefix'', JStr ''global''), (''name'', JStr l)]) labels)))
                             no_opts w2)))
                   else (Inr result, w2)))"

text \<open>A node of the \<open>pages\<close> argument of \<open>buildPageTree\<close>.\<close>

datatype page =
  Page (p_title: string) (p_body: string) (p_labels: "string list option") (p_children: "page list")

text \<open>
  \<open>buildPageTree(spaceKey, parentId, pages, delayMs = 300)\<close> returns nothing; its effect
  is the world it leaves. A page that fails is logged and its children are not visited.
\<close>

fun build_pages :: "string \<Rightarrow> json option \<Rightarrow> page list \<Rightarrow> int \<Rightarrow> world \<Rightarrow> world" where
  "build_pages spaceKey parentId [] delayMs w = w"
| "build_pages spaceKey parentId (Page title body labels children # rest) delayMs w =
     build_pages spaceKey parentId rest delayMs
       (case createPage spaceKey title body parentId (case labels of None \<Rightarrow> [] | Some ls \<Rightarrow> ls) w of
          (Inr created, w1) \<Rightarrow>
            if children \<noteq> []
            then build_pages spaceKey (get_prop created ''id'') children delayMs (pause delayMs w1)
            else pause delayMs w1
        | (Inl e, w1) \<Rightarrow> emit [Log (ErrorCreating title (message e))] w1)"

definition buildPageTree :: "string \<Rightarrow> json option \<Rightarrow> page list \<Rightarrow> int option \<Rightarrow> world \<Rightarrow> world" where
  "buildPageTree spaceKey parentId pages delayMs w =
     build_pages spaceKey parentId pages (case delayMs of None \<Rightarrow> 300 | Some d \<Rightarrow> d) w"

section \<open>Reading the trace\<close>

text \<open>What a call added to the trace, given the worlds before and after it.\<close>

definition new_events :: "world \<Rightarrow> world \<Rightarrow> event list" where
  "new_events w w' = drop (length (trace w)) (trace w')"

fun sent_of :: "event \<Rightarrow> request list" where
  "sent_of (Sent r) = [r]"
| "sent_of e = []"

fun timer_of :: "event \<Rightarrow> jsnum list" where
  "timer_of (Timer d) = [d]"
| "timer_of e = []"

fun budget_of :: "event \<Rightarrow> int list" where
  "budget_of (Log (RateLimited ra left)) = [left]"
| "budget_of e = []"

text \<open>The requests sent, the delays of the timers set, and the retries-left figures logged.\<close>

definition requests :: "event list \<Rightarrow> request list" where
  "requests evs = concat (map sent_of evs)"

definition timers :: "event list \<Rightarrow> jsnum list" where
  "timers evs = concat (map timer_of evs)"

definition budgets :: "event list \<Rightarrow> int list" where
  "budgets evs = concat (map budget_of evs)"

text \<open>The events \<open>atlassianRequest\<close> itself can add: requests, timers and its one log line.\<close>

fun transport :: "event \<Rightarrow> bool" where
  "transport (Sent r) = True"
| "transport (Timer d) = True"
| "transport (Log (RateLimited ra left)) = True"
| "transport e = False"

text \<open>
  What the console lines of a trace say about nodes: the titles of the pages whose
  creation was started (\<open>Creating page: ...\<close>), the keys and summaries of the issues
  created (\<open>Issue created: ...\<close>), the nodes reported as failed (\<open>Error creating ...\<close>),
  and the issues whose creation came to an end either way.
\<close>

fun page_attempt :: "event \<Rightarrow> string list" where
  "page_attempt (Log (CreatingPage title parent)) = [title]"
| "page_attempt e = []"

fun issue_created :: "event \<Rightarrow> (json option \<times> string) list" where
  "issue_created (Log (IssueCreated k summary)) = [(k, summary)]"
| "issue_created e = []"

fun failure_of :: "event \<Rightarrow> string list" where
  "failure_of (Log (ErrorCreating name m)) = [name]"
| "failure_of (Log (ErrorCreatingChild name m)) = [name]"
| "failure_of e = []"

fun issue_outcome :: "event \<Rightarrow> string list" where
  "issue_outcome (Log (IssueCreated k summary)) = [summary]"
| "issue_outcome (Log (ErrorCreating name m)) = [name]"
| "issue_outcome (Log (ErrorCreatingChild name m)) = [name]"
| "issue_outcome e = []"

definition attempted_pages :: "event list \<Rightarrow> string list" where
  "attempted_pages evs = concat (map page_attempt evs)"

definition created_issues :: "event list \<Rightarrow> (json option \<times> string) list" where
  "created_issues evs = concat (map issue_created evs)"

definition failed :: "event list \<Rightarrow> string list" where
  "failed evs = concat (map failure_of evs)"

definition attempted_issues :: "event list \<Rightarrow> string list" where
  "attempted_issues evs = concat (map issue_outcome evs)"

text \<open>The \<open>Error creating\<close> lines of a trace, each with the node it names and the message.\<close>

fun error_line :: "event \<Rightarrow> (string \<times> string) list" where
  "error_line (Log (ErrorCreating name m)) = [(name, m)]"
| "error_line (Log (ErrorCreatingChild name m)) = [(name, m)]"
| "error_line e = []"

definition error_lines :: "event list \<Rightarrow> (string \<times> string) list" where
  "error_lines evs = concat (map error_line evs)"

text \<open>The number of requests sent between two worlds.\<close>

definition sent_by :: "world \<Rightarrow> world \<Rightarrow> nat" where
  "sent_by w w' = length (requests (new_events w w'))"

text \<open>
  The array returned and the console agree: the keys of the entries \<open>new\<close> are the keys
  logged as created, in order, and every issue whose creation ended has an entry or an
  error line.
\<close>

definition report_ok :: "json list \<Rightarrow> event list \<Rightarrow> bool" where
  "report_ok new evs =
     (map (\<lambda>r. get_prop r ''key'') new = map fst (created_issues evs) \<and>
      length (attempted_issues evs) = length new + length (failed evs))"

section \<open>What a call sends, and when the configuration lets it\<close>

text \<open>
  The domain and credential a call uses, and whether both pass the checks of
  \<open>atlassianRequest\<close> once the configuration has been loaded.
\<close>

definition effective_domain :: "opts \<Rightarrow> config \<Rightarrow> string" where
  "effective_domain opts c = or_str (opt_domain opts) (at_domain (atlassian c))"

definition effective_auth :: "opts \<Rightarrow> config \<Rightarrow> string" where
  "effective_auth opts c = or_str (opt_auth opts) (atlassian_auth (atlassian c))"

definition configured :: "opts \<Rightarrow> world \<Rightarrow> bool" where
  "configured opts w =
     (case fst (loadConfig None w) of
        Inl e \<Rightarrow> False
      | Inr c \<Rightarrow> effective_domain opts c \<noteq> [] \<and> effective_auth opts c \<noteq> [] \<and>
                 effective_auth opts c \<noteq> ''Og=='')"

text \<open>The message of the error the checks of \<open>atlassianRequest\<close> throw.\<close>

definition config_error :: "opts \<Rightarrow> config \<Rightarrow> string" where
  "config_error opts c =
     (if effective_domain opts c = [] then ''ATLASSIAN_DOMAIN not set. Configure in .env or environment.''
      else ''ATLASSIAN_EMAIL and ATLASSIAN_API_TOKEN not set.'')"

text \<open>The request a call of \<open>atlassianRequest\<close> sends in a world, if the configuration loads.\<close>

definition request_in :: "string \<Rightarrow> string \<Rightarrow> json option \<Rightarrow> opts \<Rightarrow> world \<Rightarrow> request" where
  "request_in method path body opts w =
     (case fst (loadConfig None w) of
        Inl e \<Rightarrow> request_options method [] path [] (opt_headers opts) body
      | Inr c \<Rightarrow> request_options method (effective_domain opts c) path (effective_auth opts c)
                   (opt_headers opts) body)"

text \<open>The backend's answer number \<open>i\<close> is a response with status \<open>st\<close>.\<close>

definition answers_status :: "world \<Rightarrow> nat \<Rightarrow> nat \<Rightarrow> bool" where
  "answers_status w i st = (case script w i of Answer r \<Rightarrow> statusCode r = st | Failure m \<Rightarrow> False)"

text \<open>
  What a call of \<open>atlassianRequest\<close> comes to for the caller awaiting it, when the
  exchange is not a 429 that is retried: the payload of a 2xx answer, the HTTP error of
  any other answer, the network error of a failed exchange.
\<close>

fun settled :: "exchange \<Rightarrow> error + json" where
  "settled (Failure msg) = Inl (NetError msg)"
| "settled (Answer res) =
     (if is_2xx res then Inr (payload_of res) else Inl (HttpError (statusCode res) (data res)))"

text \<open>
  The same for \<open>createIssue\<close>, which reads \<open>result.key\<close> for its console line and so
  throws on a null payload.
\<close>

definition issue_result :: "exchange \<Rightarrow> error + json" where
  "issue_result x =
     (case settled x of
        Inl e \<Rightarrow> Inl e
      | Inr v \<Rightarrow> if v = JNull then Inl (TypeError ''Cannot read properties of null (reading 'key')'')
                 else Inr v)"

text \<open>
  The backend's answers to the next \<open>n\<close> requests, and what a run of \<open>createIssueTree\<close>
  makes of a list of answers when each request is answered by one of them: the entries of
  the array returned, and the messages of the \<open>Error creating\<close> lines.
\<close>

definition next_answers :: "world \<Rightarrow> nat \<Rightarrow> exchange list" where
  "next_answers w n = map (script w) [cursor w..<cursor w + n]"

fun entry :: "error + json \<Rightarrow> json list" where
  "entry (Inr v) = [v]"
| "entry (Inl e) = []"

fun complaint :: "error + json \<Rightarrow> string list" where
  "complaint (Inl e) = [message e]"
| "complaint (Inr v) = []"

definition entries :: "exchange list \<Rightarrow> json list" where
  "entries xs = concat (map (\<lambda>x. entry (issue_result x)) xs)"

definition complaints :: "exchange list \<Rightarrow> string list" where
  "complaints xs = concat (map (\<lambda>x. complaint (issue_result x)) xs)"

text \<open>The first request of \<open>uploadAttachment\<close> for a file with the given bytes.\<close>

definition upload_request :: "string \<Rightarrow> string \<Rightarrow> opts \<Rightarrow> string \<Rightarrow> config \<Rightarrow> string \<Rightarrow> request" where
  "upload_request apiPath filename opts rnd c fileData =
     upload_options (effective_domain opts c) apiPath (effective_auth opts c)
       (''----FormBoundary'' @ rnd) (multipart_body (''----FormBoundary'' @ rnd) filename fileData)"

text \<open>The request \<open>createIssue\<close> sends, and the one \<open>createPage\<close> sends, under the default options.\<close>

definition issue_request :: "string \<Rightarrow> string \<Rightarrow> string \<Rightarrow> json \<Rightarrow> issue_opts \<Rightarrow> config \<Rightarrow> request" where
  "issue_request pk ty summary description io c =
     request_options ''POST'' (effective_domain no_opts c) (API_V3 @ ''/issue'')
       (effective_auth no_opts c) (opt_headers no_opts)
       (Some (JObj [(''fields'', JObj (issue_fields pk ty summary description io))]))"

definition page_request :: "string \<Rightarrow> string \<Rightarrow> string \<Rightarrow> json option \<Rightarrow> config \<Rightarrow> request" where
  "page_request sk title body parent c =
     request_options ''POST'' (effective_domain no_opts c) (API @ ''/content'')
       (effective_auth no_opts c) (opt_headers no_opts)
       (Some (JObj ([(''type'', JStr ''page''), (''title'', JStr title),
                     (''space'', JObj [(''key'', JStr sk)]),
                     (''body'', JObj [(''storage'',
                        JObj [(''value'', JStr body), (''representation'', JStr ''storage'')])])] @
                    (case parent of None \<Rightarrow> [] | Some v \<Rightarrow> [(''ancestors'', JArr [JObj [(''id'', v)]])]))))"

section \<open>Forests\<close>

text \<open>
  The nodes of a page tree and of a forest in pre-order, their titles in pre-order, and
  the titles of the proper descendants of a node.
\<close>

fun page_nodes :: "page \<Rightarrow> page list" where
  "page_nodes (Page title body labels children) =
     Page title body labels children # concat (map page_nodes children)"

fun page_titles :: "page \<Rightarrow> string list" where
  "page_titles (Page title body labels children) = title # concat (map page_titles children)"

definition pages_below :: "page \<Rightarrow> string list" where
  "pages_below p = concat (map page_titles (p_children p))"

text \<open>The same for issue trees, with the summary as the key of a node.\<close>

fun issue_nodes :: "issue \<Rightarrow> issue list" where
  "issue_nodes (Issue type summary description priority labels components extra children) =
     Issue type summary description priority labels components extra children #
     concat (map issue_nodes children)"

fun issue_summaries :: "issue \<Rightarrow> string list" where
  "issue_summaries (Issue type summary description priority labels components extra children) =
     summary # concat (map issue_summaries children)"

definition issues_below :: "issue \<Rightarrow> string list" where
  "issues_below i = concat (map issue_summaries (i_children i))"

text \<open>
  What a walk over the pages \<open>ps\<close> may leave as attempted titles \<open>A\<close> and failed titles
  \<open>F\<close>: the attempts follow the pre-order, only attempted pages fail, and when titles
  identify pages, nothing below a failed page is attempted.
\<close>

definition page_walk :: "page list \<Rightarrow> string list \<Rightarrow> string list \<Rightarrow> bool" where
  "page_walk ps A F =
     (subseq A (concat (map page_titles ps)) \<and> set F \<subseteq> set A \<and>
      (distinct (concat (map page_titles ps)) \<longrightarrow>
         (\<forall>p \<in> set (concat (map page_nodes ps)).
            p_title p \<in> set F \<longrightarrow> set (pages_below p) \<inter> set A = {})))"

text \<open>The same for a walk over issues, with summaries as keys.\<close>

definition issue_walk :: "issue list \<Rightarrow> string list \<Rightarrow> string list \<Rightarrow> bool" where
  "issue_walk is A F =
     (subseq A (concat (map issue_summaries is)) \<and> set F \<subseteq> set A \<and>
      (distinct (concat (map issue_summaries is)) \<longrightarrow>
         (\<forall>p \<in> set (concat (map issue_nodes is)).
            i_summary p \<in> set F \<longrightarrow> set (issues_below p) \<inter> set A = {})))"

text \<open>A node with its children removed, and an issue cut below its children.\<close>

definition childless :: "page \<Rightarrow> page" where
  "childless p = Page (p_title p) (p_body p) (p_labels p) []"

definition without_children :: "issue \<Rightarrow> issue" where
  "without_children i =
     Issue (i_type i) (i_summary i) (i_description i) (i_priority i) (i_labels i)
           (i_components i) (i_fields i) []"

definition two_levels :: "issue \<Rightarrow> issue" where
  "two_levels i =
     Issue (i_type i) (i_summary i) (i_description i) (i_priority i) (i_labels i)
           (i_components i) (i_fields i) (map without_children (i_children i))"

section \<open>Example worlds\<close>

text \<open>
  A process started in \<open>/app\<close> with the domain in \<open>process.env\<close> and the credentials in
  \<open>/app/.env\<close>; the backend's answers are chosen per example.
\<close>

definition demo_env :: "string \<Rightarrow> string option" where
  "demo_env k = (if k = ''ATLASSIAN_DOMAIN'' then Some ''acme.atlassian.net'' else None)"

definition demo_files :: "string \<Rightarrow> fsnode option" where
  "demo_files p =
     (if p = ''/app/.env''
      then Some (File (''# creds'' @ [CHR 0x0A] @ '' ATLASSIAN_EMAIL = me@x.io '' @ [CHR 0x0A] @
                       ''ATLASSIAN_API_TOKEN=t0k''))
      else if p = ''/app/shots/home.png'' then Some (File ''PNG'')
      else None)"

definition demo_config :: config where
  "demo_config =
     \<lparr> atlassian = \<lparr> at_domain = ''acme.atlassian.net'', at_email = ''me@x.io'', at_token = ''t0k'' \<rparr>,
       screenshot = \<lparr> ss_baseUrl = [], ss_dir = ''./screenshots'', ss_width = Num 1440,
                      ss_height = Num 900, ss_scale = Num 2 \<rparr>,
       auth = \<lparr> au_email = [], au_password = [], au_provider = ''clerk'' \<rparr> \<rparr>"

definition demo_world :: world where
  "demo_world =
     \<lparr> cached = None, files = demo_files, cwd = ''/app'', penv = demo_env,
       script = (\<lambda>i. Failure ''ECONNREFUSED''), cursor = 0, trace = [] \<rparr>"

definition demo_backend :: "(nat \<Rightarrow> exchange) \<Rightarrow> world" where
  "demo_backend answers = demo_world\<lparr>script := answers\<rparr>"

text \<open>A process whose configuration is already loaded, facing the given backend.\<close>

definition demo_loaded :: "(nat \<Rightarrow> exchange) \<Rightarrow> world" where
  "demo_loaded answers = demo_world\<lparr>cached := Some demo_config, script := answers\<rparr>"

text \<open>The example process without \<open>ATLASSIAN_DOMAIN\<close> in its environment.\<close>

definition demo_unconfigured :: world where
  "demo_unconfigured = demo_world\<lparr>penv := Map.empty\<rparr>"

definition demo_config_no_domain :: config where
  "demo_config_no_domain =
     \<lparr> atlassian = \<lparr> at_domain = [], at_email = ''me@x.io'', at_token = ''t0k'' \<rparr>,
       screenshot = \<lparr> ss_baseUrl = [], ss_dir = ''./screenshots'', ss_width = Num 1440,
                      ss_height = Num 900, ss_scale = Num 2 \<rparr>,
       auth = \<lparr> au_email = [], au_password = [], au_provider = ''clerk'' \<rparr> \<rparr>"

text \<open>Example responses: a 429 with a given hint, a 200 with a given payload, a failure.\<close>

definition throttled :: "string option \<Rightarrow> response" where
  "throttled hint = \<lparr> statusCode = 429, retry_after = hint, data = units ''slow down'', parsed = None \<rparr>"

definition ok_with :: "json \<Rightarrow> response" where
  "ok_with j = \<lparr> statusCode = 200, retry_after = None, data = units ''{}'', parsed = Some j \<rparr>"

definition failing_with :: "nat \<Rightarrow> string \<Rightarrow> response" where
  "failing_with st text = \<lparr> statusCode = st, retry_after = None, data = units text, parsed = None \<rparr>"

text \<open>A backend that answers every request with status 500, and one that answers 409.\<close>

definition always_500 :: "nat \<Rightarrow> exchange" where
  "always_500 i = Answer (failing_with 500 ''boom'')"

definition always_409 :: "nat \<Rightarrow> exchange" where
  "always_409 i = Answer (failing_with 409 ''Issue already exists'')"

text \<open>
  The payload of a created issue, and a backend that accepts the first create with it and
  from then on answers 409, as one that enforces the natural key does on a second run.
\<close>

definition created_issue :: json where
  "created_issue = JObj [(''id'', JStr ''10001''), (''key'', JStr ''ACME-1'')]"

definition once_then_conflict :: "nat \<Rightarrow> exchange" where
  "once_then_conflict i =
     Answer (if i = 0 then ok_with created_issue else failing_with 409 ''Issue already exists'')"

text \<open>
  Two answers to a create request with status 400. The body of the first is 40 times
  \<open>U+00E9\<close>, then 446 times \<open>x\<close>, then "already exists": 500 code units, 540 bytes in
  UTF-8, the phrase within the first 500 units and beyond the first 500 bytes. The body of
  the second is 487 times \<open>x\<close> and the phrase: 501 units, so that the cut at 500 takes its
  last letter.
\<close>

definition accented_conflict :: response where
  "accented_conflict =
     \<lparr> statusCode = 400, retry_after = None,
       data = replicate 40 0xE9 @ units (replicate 446 CHR ''x'' @ ''already exists''),
       parsed = None \<rparr>"

definition late_conflict :: response where
  "late_conflict =
     \<lparr> statusCode = 400, retry_after = None,
       data = units (replicate 487 CHR ''x'' @ ''already exists''), parsed = None \<rparr>"

text \<open>
  A backend that creates A as ACME-1 and A2 as ACME-3 and answers every other create with
  status 500.
\<close>

definition third_issue :: json where
  "third_issue = JObj [(''id'', JStr ''10003''), (''key'', JStr ''ACME-3'')]"

definition mixed_answers :: "nat \<Rightarrow> exchange" where
  "mixed_answers i =
     Answer (if i = 0 then ok_with created_issue
             else if i = 2 then ok_with third_issue
             else failing_with 500 ''boom'')"



text \<open>The forests of the two end-to-end scenarios: A with children A1 and A2, B with child B1.\<close>

definition page_A :: page where
  "page_A = Page ''A'' ''<p>a</p>'' None [Page ''A1'' ''<p>a1</p>'' None [], Page ''A2'' ''<p>a2</p>'' None []]"

definition page_B :: page where
  "page_B = Page ''B'' ''<p>b</p>'' None [Page ''B1'' ''<p>b1</p>'' None []]"

definition leaf_issue :: "string \<Rightarrow> issue" where
  "leaf_issue s = Issue None s None None None None None []"

definition issue_A :: issue where
  "issue_A = Issue None ''A'' None None None None None [leaf_issue ''A1'', leaf_issue ''A2'']"

definition issue_B :: issue where
  "issue_B = Issue None ''B'' None None None None None [leaf_issue ''B1'']"

text \<open>A backend that answers the first create with id 1 and every later one with id 2.\<close>

definition ids_1_2 :: "nat \<Rightarrow> exchange" where
  "ids_1_2 i = Answer (ok_with (JObj [(''id'', JStr (if i = 0 then ''1'' else ''2''))]))"

section \<open>Properties of the strings\<close>

lemma ascii_simps [simp]:
  "ascii [] = True" "ascii (c # s) = ((of_char c :: nat) < 128 \<and> ascii s)"
  "ascii (s @ t) = (ascii s \<and> ascii t)"
  by (simp_all add: ascii_def)

lemma ascii_take: "ascii s \<Longrightarrow> ascii (take n s)"
  unfolding ascii_def list_all_iff by (auto dest: in_set_takeD)

lemma unat_unit: "unat (of_nat (of_char c) :: 16 word) = of_char c"
proof -
  have "(of_char c :: nat) < 256" by simp
  then have "(of_char c :: nat) < 65536" by linarith
  then show ?thesis by (simp add: unat_of_nat)
qed

lemma units_simps:
  "units [] = []" "units (c # s) = of_nat (of_char c) # units s" "units (s @ t) = units s @ units t"
  by (simp_all add: units_def)

lemma length_units [simp]: "length (units s) = length s"
  by (simp add: units_def)

lemma take_units: "take n (units s) = units (take n s)"
  by (simp add: units_def take_map)

lemma utf8_Cons_ascii: "unat u < 128 \<Longrightarrow> utf8 (u # us) = char_of (unat u) # utf8 us"
  by (cases us) (simp_all add: unit_bytes_def is_high_def)

text \<open>The UTF-8 form of an ASCII text is the text itself, also at the end of another text.\<close>

lemma utf8_units: "ascii s \<Longrightarrow> utf8 (units s) = s"
  by (induction s) (simp_all add: units_simps utf8_Cons_ascii unat_unit)


lemma ascii_replicate [simp]: "ascii (replicate n c) = (n = 0 \<or> (of_char c :: nat) < 128)"
  by (induction n) auto

lemma ascii_digits_of: "ascii (digits_of n)"
proof (induction n rule: digits_of.induct)
  case (1 n)
  have "(48 + n mod 10) mod 256 < 128" by simp
  moreover have "n < 10 \<Longrightarrow> (48 + n) mod 256 < 128" by simp
  ultimately show ?case using 1 by (subst digits_of.simps) simp
qed

lemma utf8_units_append: "ascii s \<Longrightarrow> utf8 (units s @ us) = s @ utf8 us"
  by (induction s) (simp_all add: units_simps utf8_Cons_ascii unat_unit)




text \<open>
  In UTF-8 a byte below \<open>0x80\<close> stands for an ASCII character and for nothing else, so
  looking for an ASCII text in the bytes of a string is looking for it in the code units.
\<close>

lemma unit_bytes_high: "\<not> unat u < 128 \<Longrightarrow> high_bytes (unit_bytes u) \<and> unit_bytes u \<noteq> []"
proof -
  assume a: "\<not> unat u < 128"
  have b: "unat u < 65536" using unsigned_less [of u, where 'a = nat] by simp
  show ?thesis
  proof (cases "unat u < 2048")
    case True
    then have "192 + unat u div 64 < 256" by linarith
    with True a show ?thesis by (simp add: high_bytes_def unit_bytes_def Let_def)
  next
    case False
    from b have "224 + unat u div 4096 < 256" by linarith
    moreover have "128 + unat u div 64 mod 64 < 256" "128 + unat u mod 64 < 256" by simp_all
    ultimately show ?thesis using False a by (simp add: high_bytes_def unit_bytes_def Let_def)
  qed
qed

lemma pair_bytes_high: "is_high u \<Longrightarrow> is_low v \<Longrightarrow> high_bytes (pair_bytes u v)"
proof -
  assume "is_high u" "is_low v"
  then have "65536 + (unat u - 55296) * 1024 + (unat v - 56320) < 1114112"
    by (simp add: is_high_def is_low_def) linarith
  then have "240 + (65536 + (unat u - 55296) * 1024 + (unat v - 56320)) div 262144 < 256" by linarith
  then show ?thesis by (simp add: high_bytes_def pair_bytes_def Let_def)
qed

lemma skip_high:
  assumes "high_bytes hb" and "ascii n" and "n \<noteq> []"
  shows "str_includes (hb @ t) n = str_includes t n"
  using assms(1)
proof (induction hb)
  case Nil
  show ?case by simp
next
  case (Cons b hb)
  from assms(2,3) Cons.prems have "\<not> prefix n (b # hb @ t)"
    by (cases n) (auto simp: high_bytes_def)
  with Cons show ?case by (simp add: high_bytes_def)
qed

lemma high_head:
  assumes "\<not> unat u < 128"
  shows "\<exists>b bs. utf8 (u # us) = b # bs \<and> 128 \<le> (of_char b :: nat)"
proof -
  from unit_bytes_high [OF assms] obtain b bs where
    ub: "unit_bytes u = b # bs" "128 \<le> (of_char b :: nat)"
    by (cases "unit_bytes u") (auto simp: high_bytes_def)
  show ?thesis
  proof (cases us)
    case Nil
    with ub show ?thesis by simp
  next
    case (Cons v vs)
    show ?thesis
    proof (cases "is_high u \<and> is_low v")
      case True
      with pair_bytes_high [of u v] obtain c cs where "pair_bytes u v = c # cs" "128 \<le> (of_char c :: nat)"
        by (cases "pair_bytes u v") (auto simp: high_bytes_def pair_bytes_def Let_def)
      with True Cons show ?thesis by simp
    next
      case False
      with Cons ub show ?thesis by auto
    qed
  qed
qed

lemma unit_eq_iff:
  assumes "(of_char c :: nat) < 128" and "unat (u :: 16 word) < 128"
  shows "(c = char_of (unat u)) = (of_nat (of_char c) = u)"
proof
  assume "c = char_of (unat u)"
  then have "(of_char c :: nat) = unat u" using assms(2) by simp
  then show "of_nat (of_char c) = u" by simp
next
  assume h: "of_nat (of_char c) = u"
  have "unat u = of_char c" unfolding h [symmetric] by (rule unat_unit)
  then show "c = char_of (unat u)" by simp
qed

lemma prefix_utf8: "ascii n \<Longrightarrow> prefix n (utf8 us) = prefix (units n) us"
proof (induction n arbitrary: us)
  case Nil
  show ?case by (simp add: units_simps)
next
  case (Cons c n)
  then have c: "(of_char c :: nat) < 128" and n: "ascii n" by simp_all
  show ?case
  proof (cases us)
    case Nil
    then show ?thesis by (simp add: units_simps)
  next
    case (Cons u vs)
    show ?thesis
    proof (cases "unat u < 128")
      case True
      then show ?thesis
        unfolding Cons using Cons.IH [OF n, of vs] unit_eq_iff [OF c True]
        by (simp add: utf8_Cons_ascii units_simps)
    next
      case False
      from high_head [OF False, of vs] obtain b bs where
        b: "utf8 (u # vs) = b # bs" "128 \<le> (of_char b :: nat)" by blast
      with c have "c \<noteq> b" by auto
      moreover have "of_nat (of_char c) \<noteq> u"
      proof
        assume h: "of_nat (of_char c) = u"
        have "unat u = of_char c" unfolding h [symmetric] by (rule unat_unit)
        with c False show False by simp
      qed
      ultimately show ?thesis unfolding Cons b(1) by (simp add: units_simps)
    qed
  qed
qed

text \<open>Reading \<open>includes\<close> on the UTF-8 form is reading it on the code units.\<close>

lemma includes_utf8:
  assumes "ascii n" and "n \<noteq> []"
  shows "str_includes (utf8 us) n = str_includes us (units n)"
proof (induction us rule: utf8.induct)
  case 1
  from assms(2) show ?case by (simp add: units_def)
next
  case (2 u)
  have "str_includes (utf8 [u]) n = prefix n (utf8 [u])"
  proof (cases "unat u < 128")
    case True
    with assms(2) show ?thesis by (simp add: unit_bytes_def)
  next
    case False
    from unit_bytes_high [OF False] have h: "high_bytes (unit_bytes u)" by simp
    from skip_high [OF h assms, of "[]"] assms(2) have "\<not> str_includes (unit_bytes u) n" by simp
    moreover from high_head [OF False, of "[]"] assms have "\<not> prefix n (utf8 [u])"
      by (cases n) auto
    ultimately show ?thesis by simp
  qed
  moreover have "str_includes [u] (units n) = prefix (units n) [u]"
    using assms(2) by (simp add: units_def)
  ultimately show ?case using prefix_utf8 [OF assms(1), of "[u]"] by simp
next
  case (3 u v us)
  have nu: "\<not> unat w < 128 \<Longrightarrow> \<not> prefix (units n) (w # ws)" for w ws
    using prefix_utf8 [OF assms(1), of "w # ws"] high_head [of w ws] assms
    by (cases n) auto
  show ?case
  proof (cases "is_high u \<and> is_low v")
    case True
    then have hu: "\<not> unat u < 128" "\<not> unat v < 128" by (simp_all add: is_high_def is_low_def)
    from True have "str_includes (utf8 (u # v # us)) n = str_includes (utf8 us) n"
      using skip_high [OF pair_bytes_high assms, of u v "utf8 us"] by simp
    also have "\<dots> = str_includes us (units n)" using 3(1) True by simp
    also have "\<dots> = str_includes (u # v # us) (units n)"
      using nu [OF hu(1), of "v # us"] nu [OF hu(2), of us] by simp
    finally show ?thesis .
  next
    case False
    then have ih: "str_includes (utf8 (v # us)) n = str_includes (v # us) (units n)" using 3(2) by simp
    from False have e: "utf8 (u # v # us) = unit_bytes u @ utf8 (v # us)" by auto
    show ?thesis
    proof (cases "unat u < 128")
      case True
      have "str_includes (utf8 (u # v # us)) n =
              (prefix n (utf8 (u # v # us)) \<or> str_includes (utf8 (v # us)) n)"
        unfolding utf8_Cons_ascii [OF True] by simp
      then show ?thesis using prefix_utf8 [OF assms(1), of "u # v # us"] ih by simp
    next
      case F: False
      from unit_bytes_high [OF F] have h: "high_bytes (unit_bytes u)" by simp
      have "str_includes (utf8 (u # v # us)) n = str_includes (utf8 (v # us)) n"
        unfolding e using skip_high [OF h assms] by simp
      then show ?thesis using ih nu [OF F, of "v # us"] by simp
    qed
  qed
qed

text \<open>
  So the test \<open>e.message.includes('already exists')\<close> of the creators reads the code
  units of \<open>HTTP <status>: \<close> followed by the first 500 code units of the body.
\<close>

lemma message_includes:
  assumes "ascii n" and "n \<noteq> []"
  shows "str_includes (message (HttpError st d)) n =
           str_includes (units (''HTTP '' @ digits_of st @ '': '') @ take 500 d) (units n)"
proof -
  have "ascii (''HTTP '' @ digits_of st @ '': '')" by (simp add: ascii_digits_of)
  from utf8_units_append [OF this, of "take 500 d"]
  have "message (HttpError st d) = utf8 (units (''HTTP '' @ digits_of st @ '': '') @ take 500 d)"
    by simp
  then show ?thesis using includes_utf8 [OF assms] by simp
qed

lemma conflict_sign_in_units:
  "already_exists (HttpError st d) =
     (st = 409 \<or>
      str_includes (units (''HTTP '' @ digits_of st @ '': '') @ take 500 d) (units ''already exists''))"
  unfolding already_exists_def by (subst message_includes) simp_all

text \<open>The message of an HTTP error whose body is an ASCII text.\<close>

lemma message_ascii:
  "ascii d \<Longrightarrow> message (HttpError st (units d)) = ''HTTP '' @ digits_of st @ '': '' @ take 500 d"
  "ascii d \<Longrightarrow> message (UploadError st (units d)) = ''Upload failed: HTTP '' @ digits_of st @ '': '' @ take 200 d"
  by (simp_all add: take_units utf8_units ascii_take)

section \<open>Properties of config.mjs\<close>

lemma loadConfig_hit: "cached w = Some c \<Longrightarrow> loadConfig q w = (Inr c, w)"
  by (simp add: loadConfig_def)

lemma loadConfig_stores:
  "fst (loadConfig p w) = Inr c \<Longrightarrow> cached (snd (loadConfig p w)) = Some c"
  by (auto simp: loadConfig_def Let_def split: option.splits fsnode.splits)

lemma loadConfig_env_only:
  "cached w0 = None \<Longrightarrow> cached w1 = None \<Longrightarrow> files w0 = files w1 \<Longrightarrow> cwd w0 = cwd w1 \<Longrightarrow>
   penv w0 = penv w1 \<Longrightarrow> fst (loadConfig q w0) = fst (loadConfig q w1)"
  by (auto simp: loadConfig_def Let_def split: option.splits fsnode.splits)

lemma demo_world_loads: "fst (loadConfig None demo_world) = Inr demo_config"
  by (simp add: loadConfig_def demo_world_def demo_files_def default_env_path_def Let_def
      make_config_def get_def parse_env_def env_line_def trim_def is_ws_def demo_env_def
      demo_config_def parseInt_def is_digit_def digit_val_def)

text \<open>
  C10. Once \<open>loadConfig\<close> has returned a configuration \<open>c\<close>, it is stored in \<open>_config\<close>;
  every later call, whatever its \<open>configPath\<close> and whatever the files and environment
  variables are by then, returns \<open>c\<close> and leaves the world as it is; and after
  \<open>resetConfig\<close> the next call computes what a process with an empty cache and the same
  files, working directory and environment computes.
\<close>

theorem loadConfig_cached_until_reset:
  assumes "fst (loadConfig p w) = Inr c"
  shows "cached (snd (loadConfig p w)) = Some c \<and>
         (\<forall>q w2. cached w2 = Some c \<longrightarrow> loadConfig q w2 = (Inr c, w2)) \<and>
         (\<forall>q w0. cached w0 = None \<and> files w0 = files w \<and> cwd w0 = cwd w \<and> penv w0 = penv w \<longrightarrow>
                  fst (loadConfig q (resetConfig (snd (loadConfig p w)))) = fst (loadConfig q w0))"
proof (intro conjI allI impI)
  from assms show "cached (snd (loadConfig p w)) = Some c" by (rule loadConfig_stores)
next
  fix q and w2 :: world
  assume "cached w2 = Some c"
  then show "loadConfig q w2 = (Inr c, w2)" by (rule loadConfig_hit)
next
  fix q and w0 :: world
  assume h: "cached w0 = None \<and> files w0 = files w \<and> cwd w0 = cwd w \<and> penv w0 = penv w"
  have "files (snd (loadConfig p w)) = files w" "cwd (snd (loadConfig p w)) = cwd w"
       "penv (snd (loadConfig p w)) = penv w"
    by (auto simp: loadConfig_def Let_def split: option.splits fsnode.splits)
  with h show "fst (loadConfig q (resetConfig (snd (loadConfig p w)))) = fst (loadConfig q w0)"
    by (intro loadConfig_env_only) (simp_all add: resetConfig_def)
qed

theorem loadConfig_cached_until_reset_witness:
  "fst (loadConfig None demo_world) = Inr demo_config \<and>
   loadConfig (Some ''/elsewhere/.env'') (snd (loadConfig None demo_world)\<lparr>penv := Map.empty\<rparr>)
     = (Inr demo_config, snd (loadConfig None demo_world)\<lparr>penv := Map.empty\<rparr>) \<and>
   fst (loadConfig None (resetConfig (snd (loadConfig None demo_world)))) = Inr demo_config"
proof -
  note t = loadConfig_cached_until_reset [OF demo_world_loads]
  have a: "cached (snd (loadConfig None demo_world)\<lparr>penv := Map.empty\<rparr>) = Some demo_config"
    using t by simp
  have b: "cached demo_world = None \<and> files demo_world = files demo_world \<and>
           cwd demo_world = cwd demo_world \<and> penv demo_world = penv demo_world"
    by (simp add: demo_world_def)
  from t a b demo_world_loads show ?thesis by metis
qed

section \<open>Properties of atlassianRequest\<close>

lemma requests_Nil [simp]: "requests [] = []"
  and requests_Cons [simp]: "requests (e # evs) = sent_of e @ requests evs"
  and requests_append [simp]: "requests (xs @ ys) = requests xs @ requests ys"
  by (simp_all add: requests_def)

lemma timers_Nil [simp]: "timers [] = []"
  and timers_Cons [simp]: "timers (e # evs) = timer_of e @ timers evs"
  and timers_append [simp]: "timers (xs @ ys) = timers xs @ timers ys"
  by (simp_all add: timers_def)

lemma budgets_Nil [simp]: "budgets [] = []"
  and budgets_Cons [simp]: "budgets (e # evs) = budget_of e @ budgets evs"
  and budgets_append [simp]: "budgets (xs @ ys) = budgets xs @ budgets ys"
  by (simp_all add: budgets_def)

lemma new_events_append: "trace w' = trace w @ evs \<Longrightarrow> new_events w w' = evs"
  by (simp add: new_events_def)

lemma atlassianRequest_step:
  assumes "cached w = Some c" and "effective_domain opts c \<noteq> []"
    and "effective_auth opts c \<noteq> []" and "effective_auth opts c \<noteq> ''Og==''"
  shows "atlassianRequest m p b opts w =
     (case script w (cursor w) of
        Failure msg \<Rightarrow>
          (Rejected (NetError msg),
           w\<lparr>cursor := Suc (cursor w),
             trace := trace w @ [Sent (request_options m (effective_domain opts c) p
                                        (effective_auth opts c) (opt_headers opts) b)]\<rparr>)
      | Answer res \<Rightarrow>
          if is_2xx res then
            (Resolved (payload_of res),
             w\<lparr>cursor := Suc (cursor w),
               trace := trace w @ [Sent (request_options m (effective_domain opts c) p
                                          (effective_auth opts c) (opt_headers opts) b)]\<rparr>)
          else if statusCode res = 429 \<and> max_retries opts > 0 then
            atlassianRequest m p b (opts\<lparr>retries := Some (max_retries opts - 1)\<rparr>)
              (w\<lparr>cursor := Suc (cursor w),
                 trace := trace w @
                   [Sent (request_options m (effective_domain opts c) p
                            (effective_auth opts c) (opt_headers opts) b),
                    Log (RateLimited (parseInt (or_str (retry_after res) ''5'')) (max_retries opts)),
                    Timer (times1000 (parseInt (or_str (retry_after res) ''5'')))]\<rparr>)
          else
            (Rejected (HttpError (statusCode res) (data res)),
             w\<lparr>cursor := Suc (cursor w),
               trace := trace w @ [Sent (request_options m (effective_domain opts c) p
                                          (effective_auth opts c) (opt_headers opts) b)]\<rparr>))"
  using assms
  by (subst atlassianRequest.simps)
     (simp add: loadConfig_hit send_def emit_def effective_domain_def effective_auth_def Let_def
           split: exchange.splits)

lemma atlassianRequest_loaded:
  assumes "loadConfig None w = (Inr c, w1)"
  shows "atlassianRequest m p b opts w = atlassianRequest m p b opts w1"
proof -
  from assms have "cached w1 = Some c"
    using loadConfig_stores [of None w c] by simp
  then have b: "loadConfig None w1 = (Inr c, w1)"
    by (rule loadConfig_hit)
  note s1 = atlassianRequest.simps [of m p b opts w]
  note s2 = atlassianRequest.simps [of m p b opts w1]
  show ?thesis
    unfolding s1 s2 assms b by simp
qed

lemma answers_statusD:
  "answers_status w i st \<Longrightarrow> \<exists>r. script w i = Answer r \<and> statusCode r = st"
  by (auto simp: answers_status_def split: exchange.splits)

lemma retries_exhausted:
  assumes c: "cached w = Some c" and d: "effective_domain opts c \<noteq> []"
    and a: "effective_auth opts c \<noteq> []" "effective_auth opts c \<noteq> ''Og==''"
    and s: "\<forall>i\<le>n. answers_status w (cursor w + i) 429"
  shows "\<exists>d evs. atlassianRequest m p b (opts\<lparr>retries := Some (int n)\<rparr>) w =
            (Rejected (HttpError 429 d), w\<lparr>cursor := cursor w + n + 1, trace := trace w @ evs\<rparr>) \<and>
          requests evs = replicate (n + 1) (request_options m (effective_domain opts c) p
                                              (effective_auth opts c) (opt_headers opts) b) \<and>
          length (timers evs) = n \<and> budgets evs = rev (map int [1..<n + 1])"
  using c s
proof (induction n arbitrary: w)
  case 0
  then obtain r where r: "script w (cursor w) = Answer r" "statusCode r = 429"
    using answers_statusD [of w "cursor w" 429] by auto
  have v: "effective_domain (opts\<lparr>retries := Some 0\<rparr>) c \<noteq> []"
     "effective_auth (opts\<lparr>retries := Some 0\<rparr>) c \<noteq> []"
     "effective_auth (opts\<lparr>retries := Some 0\<rparr>) c \<noteq> ''Og==''"
    using d a by (simp_all add: effective_domain_def effective_auth_def)
  let ?req = "request_options m (effective_domain opts c) p (effective_auth opts c) (opt_headers opts) b"
  have "atlassianRequest m p b (opts\<lparr>retries := Some (int 0)\<rparr>) w =
          (Rejected (HttpError 429 (data r)), w\<lparr>cursor := cursor w + 0 + 1, trace := trace w @ [Sent ?req]\<rparr>)"
    using r atlassianRequest_step [OF "0.prems"(1) v, of m p b]
    by (simp add: is_2xx_def max_retries_def effective_domain_def effective_auth_def)
  moreover have "requests [Sent ?req] = replicate (0 + 1) ?req" by simp
  moreover have "length (timers [Sent ?req]) = 0" by simp
  moreover have "budgets [Sent ?req] = rev (map int [1..<0 + 1])" by simp
  ultimately show ?case by blast
next
  case (Suc n)
  then obtain r where r: "script w (cursor w) = Answer r" "statusCode r = 429"
    using answers_statusD [of w "cursor w" 429] by force
  let ?o = "opts\<lparr>retries := Some (int (Suc n))\<rparr>"
  let ?req = "request_options m (effective_domain opts c) p (effective_auth opts c) (opt_headers opts) b"
  let ?ra = "parseInt (or_str (retry_after r) ''5'')"
  let ?w2 = "w\<lparr>cursor := Suc (cursor w),
               trace := trace w @ [Sent ?req, Log (RateLimited ?ra (int (Suc n))), Timer (times1000 ?ra)]\<rparr>"
  have v: "effective_domain ?o c \<noteq> []" "effective_auth ?o c \<noteq> []" "effective_auth ?o c \<noteq> ''Og==''"
    using d a by (simp_all add: effective_domain_def effective_auth_def)
  have step: "atlassianRequest m p b ?o w = atlassianRequest m p b (opts\<lparr>retries := Some (int n)\<rparr>) ?w2"
    using r atlassianRequest_step [OF Suc.prems(1) v, of m p b]
    by (simp add: is_2xx_def max_retries_def effective_domain_def effective_auth_def)
  have c2: "cached ?w2 = Some c" using Suc.prems(1) by simp
  have s2: "\<forall>i\<le>n. answers_status ?w2 (cursor ?w2 + i) 429"
  proof (intro allI impI)
    fix i assume "i \<le> n"
    then have "Suc i \<le> Suc n" by simp
    with Suc.prems(2) have "answers_status w (cursor w + Suc i) 429" by blast
    then show "answers_status ?w2 (cursor ?w2 + i) 429" by (simp add: answers_status_def)
  qed
  from Suc.IH [OF c2 s2] obtain d' evs where
    ih: "atlassianRequest m p b (opts\<lparr>retries := Some (int n)\<rparr>) ?w2 =
           (Rejected (HttpError 429 d'), ?w2\<lparr>cursor := cursor ?w2 + n + 1, trace := trace ?w2 @ evs\<rparr>)"
        "requests evs = replicate (n + 1) ?req" "length (timers evs) = n"
        "budgets evs = rev (map int [1..<n + 1])"
    by blast
  let ?evs = "[Sent ?req, Log (RateLimited ?ra (int (Suc n))), Timer (times1000 ?ra)] @ evs"
  have "atlassianRequest m p b ?o w =
          (Rejected (HttpError 429 d'), w\<lparr>cursor := cursor w + Suc n + 1, trace := trace w @ ?evs\<rparr>)"
    using step ih(1) by simp
  moreover have "requests ?evs = replicate (Suc n + 1) ?req" using ih(2) by simp
  moreover have "length (timers ?evs) = Suc n" using ih(3) by simp
  moreover have "budgets ?evs = rev (map int [1..<Suc n + 1])" using ih(4) by simp
  ultimately show ?case by blast
qed

lemma retries_succeed:
  assumes c: "cached w = Some c" and d: "effective_domain opts c \<noteq> []"
    and a: "effective_auth opts c \<noteq> []" "effective_auth opts c \<noteq> ''Og==''"
    and k: "k \<le> n"
    and s: "\<forall>i<k. answers_status w (cursor w + i) 429"
    and r: "script w (cursor w + k) = Answer r" "is_2xx r"
  shows "\<exists>evs. atlassianRequest m p b (opts\<lparr>retries := Some (int n)\<rparr>) w =
            (Resolved (payload_of r), w\<lparr>cursor := cursor w + k + 1, trace := trace w @ evs\<rparr>) \<and>
          requests evs = replicate (k + 1) (request_options m (effective_domain opts c) p
                                              (effective_auth opts c) (opt_headers opts) b) \<and>
          length (timers evs) = k \<and> budgets evs = rev (map int [n - k + 1..<n + 1])"
  using c k s r
proof (induction k arbitrary: w n)
  case 0
  let ?o = "opts\<lparr>retries := Some (int n)\<rparr>"
  let ?req = "request_options m (effective_domain opts c) p (effective_auth opts c) (opt_headers opts) b"
  have v: "effective_domain ?o c \<noteq> []" "effective_auth ?o c \<noteq> []" "effective_auth ?o c \<noteq> ''Og==''"
    using d a by (simp_all add: effective_domain_def effective_auth_def)
  have "atlassianRequest m p b ?o w =
          (Resolved (payload_of r), w\<lparr>cursor := cursor w + 0 + 1, trace := trace w @ [Sent ?req]\<rparr>)"
    using "0.prems"(4,5) atlassianRequest_step [OF "0.prems"(1) v, of m p b]
    by (simp add: effective_domain_def effective_auth_def)
  moreover have "requests [Sent ?req] = replicate (0 + 1) ?req" by simp
  moreover have "length (timers [Sent ?req]) = 0" by simp
  moreover have "budgets [Sent ?req] = rev (map int [n - 0 + 1..<n + 1])" by simp
  ultimately show ?case by blast
next
  case (Suc k)
  from Suc.prems(2) obtain n' where n: "n = Suc n'" "k \<le> n'" by (cases n) auto
  from Suc.prems(3) have "answers_status w (cursor w + 0) 429" by blast
  then obtain r0 where r0: "script w (cursor w) = Answer r0" "statusCode r0 = 429"
    using answers_statusD [of w "cursor w" 429] by auto
  let ?o = "opts\<lparr>retries := Some (int n)\<rparr>"
  let ?req = "request_options m (effective_domain opts c) p (effective_auth opts c) (opt_headers opts) b"
  let ?ra = "parseInt (or_str (retry_after r0) ''5'')"
  let ?w2 = "w\<lparr>cursor := Suc (cursor w),
               trace := trace w @ [Sent ?req, Log (RateLimited ?ra (int n)), Timer (times1000 ?ra)]\<rparr>"
  have v: "effective_domain ?o c \<noteq> []" "effective_auth ?o c \<noteq> []" "effective_auth ?o c \<noteq> ''Og==''"
    using d a by (simp_all add: effective_domain_def effective_auth_def)
  have step: "atlassianRequest m p b ?o w = atlassianRequest m p b (opts\<lparr>retries := Some (int n')\<rparr>) ?w2"
    using r0 n atlassianRequest_step [OF Suc.prems(1) v, of m p b]
    by (simp add: is_2xx_def max_retries_def effective_domain_def effective_auth_def)
  have c2: "cached ?w2 = Some c" using Suc.prems(1) by simp
  have s2: "\<forall>i<k. answers_status ?w2 (cursor ?w2 + i) 429"
  proof (intro allI impI)
    fix i assume "i < k"
    then have "Suc i < Suc k" by simp
    with Suc.prems(3) have "answers_status w (cursor w + Suc i) 429" by blast
    then show "answers_status ?w2 (cursor ?w2 + i) 429" by (simp add: answers_status_def)
  qed
  have r2: "script ?w2 (cursor ?w2 + k) = Answer r" using Suc.prems(4) by simp
  from Suc.IH [OF c2 n(2) s2 r2 Suc.prems(5)] obtain evs where
    ih: "atlassianRequest m p b (opts\<lparr>retries := Some (int n')\<rparr>) ?w2 =
           (Resolved (payload_of r), ?w2\<lparr>cursor := cursor ?w2 + k + 1, trace := trace ?w2 @ evs\<rparr>)"
        "requests evs = replicate (k + 1) ?req" "length (timers evs) = k"
        "budgets evs = rev (map int [n' - k + 1..<n' + 1])"
    by blast
  let ?evs = "[Sent ?req, Log (RateLimited ?ra (int n)), Timer (times1000 ?ra)] @ evs"
  have "atlassianRequest m p b ?o w =
          (Resolved (payload_of r), w\<lparr>cursor := cursor w + Suc k + 1, trace := trace w @ ?evs\<rparr>)"
    using step ih(1) by simp
  moreover have "requests ?evs = replicate (Suc k + 1) ?req" using ih(2) by simp
  moreover have "length (timers ?evs) = Suc k" using ih(3) by simp
  moreover have "budgets ?evs = rev (map int [n - Suc k + 1..<n + 1])"
    using ih(4) n by simp
  ultimately show ?case by blast
qed

lemma loadConfig_keeps [simp]:
  "cursor (snd (loadConfig q w)) = cursor w"
  "trace (snd (loadConfig q w)) = trace w"
  "script (snd (loadConfig q w)) = script w"
  "files (snd (loadConfig q w)) = files w"
  by (auto simp: loadConfig_def Let_def split: option.splits fsnode.splits)

lemma configuredD:
  assumes "configured opts w"
  shows "\<exists>c. loadConfig None w = (Inr c, snd (loadConfig None w)) \<and>
             cached (snd (loadConfig None w)) = Some c \<and>
             effective_domain opts c \<noteq> [] \<and> effective_auth opts c \<noteq> [] \<and>
             effective_auth opts c \<noteq> ''Og=='' \<and>
             (\<forall>m p b. request_in m p b opts w =
                request_options m (effective_domain opts c) p (effective_auth opts c) (opt_headers opts) b)"
proof -
  from assms obtain c where c: "fst (loadConfig None w) = Inr c"
    and v: "effective_domain opts c \<noteq> []" "effective_auth opts c \<noteq> []" "effective_auth opts c \<noteq> ''Og==''"
    by (auto simp: configured_def split: sum.splits)
  have "loadConfig None w = (Inr c, snd (loadConfig None w))"
    using c by (metis prod.collapse)
  moreover have "cached (snd (loadConfig None w)) = Some c" using c by (rule loadConfig_stores)
  moreover have "\<forall>m p b. request_in m p b opts w =
           request_options m (effective_domain opts c) p (effective_auth opts c) (opt_headers opts) b"
    using c by (simp add: request_in_def)
  ultimately show ?thesis using v by blast
qed

text \<open>
  C1. In a world where the configuration passes the checks of \<open>atlassianRequest\<close>, a
  call with retry budget \<open>n\<close>: if the backend's next \<open>n + 1\<close> answers are 429 responses,
  the call is rejected with an \<open>HttpError\<close> of status 429 after exactly \<open>n + 1\<close> copies of
  the same request and \<open>n\<close> timers, the logged retries-left figures running from \<open>n\<close> down
  to 1, and the backend's cursor has moved by \<open>n + 1\<close> only; if the next \<open>k \<le> n\<close> answers
  are 429 responses and the one after is a 2xx response, the call resolves with that
  response's payload after exactly \<open>k\<close> timers and \<open>k + 1\<close> requests.
\<close>

theorem retry_bound:
  assumes "configured opts w"
  shows "((\<forall>i\<le>n. answers_status w (cursor w + i) 429) \<longrightarrow>
            (\<exists>d. fst (atlassianRequest m p b (opts\<lparr>retries := Some (int n)\<rparr>) w) = Rejected (HttpError 429 d)) \<and>
            requests (new_events w (snd (atlassianRequest m p b (opts\<lparr>retries := Some (int n)\<rparr>) w)))
              = replicate (n + 1) (request_in m p b opts w) \<and>
            cursor (snd (atlassianRequest m p b (opts\<lparr>retries := Some (int n)\<rparr>) w)) = cursor w + (n + 1) \<and>
            length (timers (new_events w (snd (atlassianRequest m p b (opts\<lparr>retries := Some (int n)\<rparr>) w)))) = n \<and>
            budgets (new_events w (snd (atlassianRequest m p b (opts\<lparr>retries := Some (int n)\<rparr>) w)))
              = rev (map int [1..<n + 1])) \<and>
         (\<forall>k r. k \<le> n \<and> (\<forall>i<k. answers_status w (cursor w + i) 429) \<and>
                script w (cursor w + k) = Answer r \<and> is_2xx r \<longrightarrow>
            fst (atlassianRequest m p b (opts\<lparr>retries := Some (int n)\<rparr>) w) = Resolved (payload_of r) \<and>
            length (timers (new_events w (snd (atlassianRequest m p b (opts\<lparr>retries := Some (int n)\<rparr>) w)))) = k \<and>
            requests (new_events w (snd (atlassianRequest m p b (opts\<lparr>retries := Some (int n)\<rparr>) w)))
              = replicate (k + 1) (request_in m p b opts w) \<and>
            cursor (snd (atlassianRequest m p b (opts\<lparr>retries := Some (int n)\<rparr>) w)) = cursor w + (k + 1))"
proof -
  let ?w1 = "snd (loadConfig None w)"
  let ?o = "opts\<lparr>retries := Some (int n)\<rparr>"
  from configuredD [OF assms] obtain c where l: "loadConfig None w = (Inr c, ?w1)" and c: "cached ?w1 = Some c"
    and v: "effective_domain opts c \<noteq> []" "effective_auth opts c \<noteq> []" "effective_auth opts c \<noteq> ''Og==''"
    and q: "\<And>m p b. request_in m p b opts w =
           request_options m (effective_domain opts c) p (effective_auth opts c) (opt_headers opts) b"
    by blast
  have e: "atlassianRequest m p b ?o w = atlassianRequest m p b ?o ?w1"
    using l by (rule atlassianRequest_loaded)
  show ?thesis
  proof (rule conjI, goal_cases)
    case 1
    show ?case
    proof (intro impI conjI)
    assume "\<forall>i\<le>n. answers_status w (cursor w + i) 429"
    then have "\<forall>i\<le>n. answers_status ?w1 (cursor ?w1 + i) 429"
      by (simp add: answers_status_def)
    from retries_exhausted [OF c v this, of m p b] obtain d evs where
      x: "atlassianRequest m p b ?o ?w1 =
            (Rejected (HttpError 429 d), ?w1\<lparr>cursor := cursor ?w1 + n + 1, trace := trace ?w1 @ evs\<rparr>)"
         "requests evs = replicate (n + 1) (request_in m p b opts w)"
         "length (timers evs) = n" "budgets evs = rev (map int [1..<n + 1])"
      unfolding q by blast
    have ne: "new_events w (snd (atlassianRequest m p b ?o w)) = evs"
      using x(1) e by (intro new_events_append) simp
    show "\<exists>d. fst (atlassianRequest m p b ?o w) = Rejected (HttpError 429 d)"
      using x(1) e by simp
    show "requests (new_events w (snd (atlassianRequest m p b ?o w))) = replicate (n + 1) (request_in m p b opts w)"
      using x(2) ne by simp
    show "cursor (snd (atlassianRequest m p b ?o w)) = cursor w + (n + 1)"
      using x(1) e by simp
    show "length (timers (new_events w (snd (atlassianRequest m p b ?o w)))) = n"
      using x(3) ne by simp
    show "budgets (new_events w (snd (atlassianRequest m p b ?o w))) = rev (map int [1..<n + 1])"
      using x(4) ne by simp
    qed
  next
    case 2
    show ?case
    proof (intro allI impI)
    fix k r
    assume h: "k \<le> n \<and> (\<forall>i<k. answers_status w (cursor w + i) 429) \<and>
               script w (cursor w + k) = Answer r \<and> is_2xx r"
    then have s1: "\<forall>i<k. answers_status ?w1 (cursor ?w1 + i) 429"
      and r1: "script ?w1 (cursor ?w1 + k) = Answer r"
      by (simp_all add: answers_status_def)
    from h have k: "k \<le> n" and r2: "is_2xx r" by simp_all
    from retries_succeed [OF c v k s1 r1 r2, of m p b] obtain evs where
      x: "atlassianRequest m p b ?o ?w1 =
            (Resolved (payload_of r), ?w1\<lparr>cursor := cursor ?w1 + k + 1, trace := trace ?w1 @ evs\<rparr>)"
         "requests evs = replicate (k + 1) (request_in m p b opts w)"
         "length (timers evs) = k"
      unfolding q by blast
    have ne: "new_events w (snd (atlassianRequest m p b ?o w)) = evs"
      using x(1) e by (intro new_events_append) simp
    show "fst (atlassianRequest m p b ?o w) = Resolved (payload_of r) \<and>
          length (timers (new_events w (snd (atlassianRequest m p b ?o w)))) = k \<and>
          requests (new_events w (snd (atlassianRequest m p b ?o w))) = replicate (k + 1) (request_in m p b opts w) \<and>
          cursor (snd (atlassianRequest m p b ?o w)) = cursor w + (k + 1)"
      using x e ne by simp
    qed
  qed
qed

lemma demo_backend_loads: "fst (loadConfig None (demo_backend answers)) = Inr demo_config"
  by (simp add: loadConfig_def demo_backend_def demo_world_def demo_files_def default_env_path_def Let_def
      make_config_def get_def parse_env_def env_line_def trim_def is_ws_def demo_env_def
      demo_config_def parseInt_def is_digit_def digit_val_def)

lemma demo_backend_configured: "configured no_opts (demo_backend answers)"
proof -
  note demo_backend_loads [of answers]
  moreover have "atlassian_auth (atlassian demo_config) = ''bWVAeC5pbzp0MGs=''"
    by (simp add: atlassian_auth_def demo_config_def base64_def b64_char_def b64_alphabet_def)
  ultimately show ?thesis
    by (simp add: configured_def effective_domain_def effective_auth_def no_opts_def demo_config_def)
qed

theorem retry_bound_witness:
  "configured no_opts (demo_backend (\<lambda>i. Answer (throttled None))) \<and>
   answers_status (demo_backend (\<lambda>i. Answer (throttled None))) 0 429 \<and>
   answers_status (demo_backend (\<lambda>i. Answer (throttled None))) 1 429 \<and>
   (\<exists>d. fst (atlassianRequest ''GET'' ''/rest/api/3/myself'' None (no_opts\<lparr>retries := Some (int 1)\<rparr>)
             (demo_backend (\<lambda>i. Answer (throttled None)))) = Rejected (HttpError 429 d)) \<and>
   cursor (snd (atlassianRequest ''GET'' ''/rest/api/3/myself'' None (no_opts\<lparr>retries := Some (int 1)\<rparr>)
             (demo_backend (\<lambda>i. Answer (throttled None))))) = 2 \<and>
   configured no_opts (demo_backend (\<lambda>i. Answer (if i < 2 then throttled None else ok_with JNull))) \<and>
   fst (atlassianRequest ''GET'' ''/rest/api/3/myself'' None (no_opts\<lparr>retries := Some (int 3)\<rparr>)
          (demo_backend (\<lambda>i. Answer (if i < 2 then throttled None else ok_with JNull)))) = Resolved JNull \<and>
   length (timers (new_events (demo_backend (\<lambda>i. Answer (if i < 2 then throttled None else ok_with JNull)))
     (snd (atlassianRequest ''GET'' ''/rest/api/3/myself'' None (no_opts\<lparr>retries := Some (int 3)\<rparr>)
          (demo_backend (\<lambda>i. Answer (if i < 2 then throttled None else ok_with JNull))))))) = 2"
proof -
  let ?A = "demo_backend (\<lambda>i. Answer (throttled None))"
  let ?B = "demo_backend (\<lambda>i. Answer (if i < 2 then throttled None else ok_with JNull))"
  have a: "\<forall>i\<le>1. answers_status ?A (cursor ?A + i) 429"
    by (simp add: answers_status_def demo_backend_def throttled_def)
  have b: "2 \<le> (3::nat) \<and> (\<forall>i<2. answers_status ?B (cursor ?B + i) 429) \<and>
           script ?B (cursor ?B + 2) = Answer (ok_with JNull) \<and> is_2xx (ok_with JNull)"
    by (simp add: answers_status_def demo_backend_def demo_world_def throttled_def ok_with_def is_2xx_def)
  have cA: "cursor ?A = 0" by (simp add: demo_backend_def demo_world_def)
  have p: "payload_of (ok_with JNull) = JNull" by (simp add: payload_of_def ok_with_def)
  note tA = retry_bound [OF demo_backend_configured, where n = 1 and m = "''GET''"
               and p = "''/rest/api/3/myself''" and b = None and answers1 = "\<lambda>i. Answer (throttled None)"]
  note tB = retry_bound [OF demo_backend_configured, where n = 3 and m = "''GET''"
               and p = "''/rest/api/3/myself''" and b = None
               and answers1 = "\<lambda>i. Answer (if i < 2 then throttled None else ok_with JNull)"]
  from tA a cA have
    "(\<exists>d. fst (atlassianRequest ''GET'' ''/rest/api/3/myself'' None (no_opts\<lparr>retries := Some (int 1)\<rparr>) ?A)
         = Rejected (HttpError 429 d)) \<and>
     cursor (snd (atlassianRequest ''GET'' ''/rest/api/3/myself'' None (no_opts\<lparr>retries := Some (int 1)\<rparr>) ?A)) = 2"
    by simp
  moreover from tB b p have
    "fst (atlassianRequest ''GET'' ''/rest/api/3/myself'' None (no_opts\<lparr>retries := Some (int 3)\<rparr>) ?B) = Resolved JNull \<and>
     length (timers (new_events ?B
       (snd (atlassianRequest ''GET'' ''/rest/api/3/myself'' None (no_opts\<lparr>retries := Some (int 3)\<rparr>) ?B)))) = 2"
    by metis
  moreover have "answers_status ?A 0 429" "answers_status ?A 1 429"
    by (simp_all add: answers_status_def demo_backend_def throttled_def)
  ultimately show ?thesis using demo_backend_configured by blast
qed

lemma atlassianRequest_invalid:
  assumes "cached w = Some c"
    and "effective_domain opts c = [] \<or> effective_auth opts c = [] \<or> effective_auth opts c = ''Og==''"
  shows "\<exists>msg. atlassianRequest m p b opts w = (Thrown (ConfigError msg), w)"
  using assms
  by (subst atlassianRequest.simps)
     (auto simp: loadConfig_hit effective_domain_def effective_auth_def Let_def)

lemma atlassianRequest_effect_cached:
  assumes "cached w = Some c"
  shows "\<exists>evs. snd (atlassianRequest m p b opts w) =
           w\<lparr>cursor := cursor w + length (requests evs), trace := trace w @ evs\<rparr> \<and>
         list_all transport evs"
  using assms
proof (induction "nat (max_retries opts)" arbitrary: opts w rule: less_induct)
  case less
  show ?case
  proof (cases "effective_domain opts c = [] \<or> effective_auth opts c = [] \<or> effective_auth opts c = ''Og==''")
    case True
    from atlassianRequest_invalid [OF less.prems True, of m p b]
    have "snd (atlassianRequest m p b opts w) = w\<lparr>cursor := cursor w + length (requests []), trace := trace w @ []\<rparr>"
      by auto
    then show ?thesis by (intro exI [of _ "[]"]) simp
  next
    case False
    then have v: "effective_domain opts c \<noteq> []" "effective_auth opts c \<noteq> []" "effective_auth opts c \<noteq> ''Og==''"
      by simp_all
    let ?req = "request_options m (effective_domain opts c) p (effective_auth opts c) (opt_headers opts) b"
    note st = atlassianRequest_step [OF less.prems v, of m p b]
    show ?thesis
    proof (cases "script w (cursor w)")
      case (Failure msg)
      with st have "snd (atlassianRequest m p b opts w) =
          w\<lparr>cursor := cursor w + length (requests [Sent ?req]), trace := trace w @ [Sent ?req]\<rparr>"
        by simp
      then show ?thesis by (intro exI [of _ "[Sent ?req]"]) simp
    next
      case (Answer res)
      show ?thesis
      proof (cases "\<not> is_2xx res \<and> statusCode res = 429 \<and> max_retries opts > 0")
        case False
        with st Answer have "snd (atlassianRequest m p b opts w) =
            w\<lparr>cursor := cursor w + length (requests [Sent ?req]), trace := trace w @ [Sent ?req]\<rparr>"
          by auto
        then show ?thesis by (intro exI [of _ "[Sent ?req]"]) simp
      next
        case True
        let ?ra = "parseInt (or_str (retry_after res) ''5'')"
        let ?pre = "[Sent ?req, Log (RateLimited ?ra (max_retries opts)), Timer (times1000 ?ra)]"
        let ?w2 = "w\<lparr>cursor := Suc (cursor w), trace := trace w @ ?pre\<rparr>"
        let ?o = "opts\<lparr>retries := Some (max_retries opts - 1)\<rparr>"
        from True st Answer have e: "atlassianRequest m p b opts w = atlassianRequest m p b ?o ?w2"
          by simp
        have "nat (max_retries ?o) < nat (max_retries opts)"
          using True by (simp add: max_retries_def)
        moreover have "cached ?w2 = Some c" using less.prems by simp
        ultimately obtain evs where
          ih: "snd (atlassianRequest m p b ?o ?w2) =
                 ?w2\<lparr>cursor := cursor ?w2 + length (requests evs), trace := trace ?w2 @ evs\<rparr>"
              "list_all transport evs"
          using less.hyps [of ?o ?w2] by blast
        have "snd (atlassianRequest m p b opts w) =
                w\<lparr>cursor := cursor w + length (requests (?pre @ evs)), trace := trace w @ (?pre @ evs)\<rparr>"
          using e ih(1) by simp
        moreover have "list_all transport (?pre @ evs)" using ih(2) by simp
        ultimately show ?thesis by blast
      qed
    qed
  qed
qed

lemma atlassianRequest_effect:
  "\<exists>evs. snd (atlassianRequest m p b opts w) =
     (snd (loadConfig None w))\<lparr>cursor := cursor w + length (requests evs), trace := trace w @ evs\<rparr> \<and>
     list_all transport evs"
proof (cases "fst (loadConfig None w)")
  case (Inl e)
  then have l: "loadConfig None w = (Inl e, snd (loadConfig None w))" by (metis prod.collapse)
  have "snd (atlassianRequest m p b opts w) = snd (loadConfig None w)"
    by (subst atlassianRequest.simps, subst l) simp
  moreover have k: "cursor w = cursor (snd (loadConfig None w))" "trace w = trace (snd (loadConfig None w))"
    by simp_all
  ultimately have "snd (atlassianRequest m p b opts w) =
     (snd (loadConfig None w))\<lparr>cursor := cursor w + length (requests []), trace := trace w @ []\<rparr>"
    unfolding k by simp
  then show ?thesis by (intro exI [of _ "[]"]) simp
next
  case (Inr c)
  let ?w1 = "snd (loadConfig None w)"
  from Inr have l: "loadConfig None w = (Inr c, ?w1)" by (metis prod.collapse)
  have c: "cached ?w1 = Some c" using Inr by (rule loadConfig_stores)
  have e: "atlassianRequest m p b opts w = atlassianRequest m p b opts ?w1"
    using l by (rule atlassianRequest_loaded)
  from atlassianRequest_effect_cached [OF c, of m p b opts] show ?thesis
    unfolding e by simp
qed

lemma atlassianRequest_not_thrown:
  assumes "cached w = Some c" and "effective_domain opts c \<noteq> []"
    and "effective_auth opts c \<noteq> []" and "effective_auth opts c \<noteq> ''Og==''"
  shows "fst (atlassianRequest m p b opts w) \<noteq> Thrown e"
  using assms
proof (induction "nat (max_retries opts)" arbitrary: opts w rule: less_induct)
  case less
  note st = atlassianRequest_step [OF less.prems, of m p b]
  show ?case
  proof (cases "script w (cursor w)")
    case (Failure msg)
    with st show ?thesis by simp
  next
    case (Answer res)
    show ?thesis
    proof (cases "\<not> is_2xx res \<and> statusCode res = 429 \<and> max_retries opts > 0")
      case False
      with st Answer show ?thesis by auto
    next
      case True
      let ?o = "opts\<lparr>retries := Some (max_retries opts - 1)\<rparr>"
      have "nat (max_retries ?o) < nat (max_retries opts)"
        using True by (simp add: max_retries_def)
      moreover have "effective_domain ?o c \<noteq> []" "effective_auth ?o c \<noteq> []" "effective_auth ?o c \<noteq> ''Og==''"
        using less.prems by (simp_all add: effective_domain_def effective_auth_def)
      ultimately show ?thesis
        using True st Answer less.hyps [of ?o] less.prems(1) by simp
    qed
  qed
qed

lemma demo_auth: "atlassian_auth (atlassian demo_config) = ''bWVAeC5pbzp0MGs=''"
  by (simp add: atlassian_auth_def demo_config_def base64_def b64_char_def b64_alphabet_def)

lemma demo_valid:
  "effective_domain no_opts demo_config \<noteq> []" "effective_auth no_opts demo_config \<noteq> []"
  "effective_auth no_opts demo_config \<noteq> ''Og==''"
  by (simp_all add: effective_domain_def effective_auth_def no_opts_def demo_auth)
     (simp add: demo_config_def)

lemma demo_valid_retries:
  "effective_domain (no_opts\<lparr>retries := r\<rparr>) demo_config \<noteq> []"
  "effective_auth (no_opts\<lparr>retries := r\<rparr>) demo_config \<noteq> []"
  "effective_auth (no_opts\<lparr>retries := r\<rparr>) demo_config \<noteq> ''Og==''"
  using demo_valid by (simp_all add: effective_domain_def effective_auth_def no_opts_def)

lemma retry_wait:
  assumes "cached w = Some c" and "effective_domain opts c \<noteq> []"
    and "effective_auth opts c \<noteq> []" and "effective_auth opts c \<noteq> ''Og==''"
    and "script w (cursor w) = Answer res" and "statusCode res = 429" and "0 < max_retries opts"
  shows "\<exists>rest. timers (new_events w (snd (atlassianRequest m p b opts w))) =
           times1000 (parseInt (or_str (retry_after res) ''5'')) # rest"
proof -
  let ?req = "request_options m (effective_domain opts c) p (effective_auth opts c) (opt_headers opts) b"
  let ?ra = "parseInt (or_str (retry_after res) ''5'')"
  let ?pre = "[Sent ?req, Log (RateLimited ?ra (max_retries opts)), Timer (times1000 ?ra)]"
  let ?w2 = "w\<lparr>cursor := Suc (cursor w), trace := trace w @ ?pre\<rparr>"
  let ?o = "opts\<lparr>retries := Some (max_retries opts - 1)\<rparr>"
  have e: "atlassianRequest m p b opts w = atlassianRequest m p b ?o ?w2"
    using atlassianRequest_step [OF assms(1-4), of m p b] assms(5-7) by (simp add: is_2xx_def)
  have "cached ?w2 = Some c" using assms(1) by simp
  from atlassianRequest_effect_cached [OF this, of m p b ?o] obtain evs where
    "snd (atlassianRequest m p b ?o ?w2) =
       ?w2\<lparr>cursor := cursor ?w2 + length (requests evs), trace := trace ?w2 @ evs\<rparr>"
    by blast
  then have "trace (snd (atlassianRequest m p b opts w)) = trace w @ (?pre @ evs)"
    using e by simp
  then have "new_events w (snd (atlassianRequest m p b opts w)) = ?pre @ evs"
    by (rule new_events_append)
  then show ?thesis by simp
qed

lemma parseInt_absent: "parseInt ''5'' = Num 5"
  by (simp add: parseInt_def is_ws_def is_digit_def digit_val_def)

lemma parseInt_120: "parseInt ''120'' = Num 120"
  by (simp add: parseInt_def is_ws_def is_digit_def digit_val_def)

lemma parseInt_date: "parseInt ''Wed, 21 Oct 2015 07:28:00 GMT'' = NaN"
  by (simp add: parseInt_def is_ws_def is_digit_def digit_val_def)

text \<open>
  C7, at an input where it fails. The backend answers 429 with the header
  \<open>Retry-After: Wed, 21 Oct 2015 07:28:00 GMT\<close> and then 200. The one timer the call sets
  has the delay \<open>NaN\<close>, not 5000 milliseconds: the fallback \<open>'5'\<close> replaces only a header
  that is absent or empty.
\<close>

theorem retry_wait_unparsable_hint:
  "timers (new_events
     (demo_loaded (\<lambda>i. Answer (if i = 0 then throttled (Some ''Wed, 21 Oct 2015 07:28:00 GMT'') else ok_with JNull)))
     (snd (atlassianRequest ''GET'' ''/rest/api/3/myself'' None no_opts
        (demo_loaded (\<lambda>i. Answer (if i = 0 then throttled (Some ''Wed, 21 Oct 2015 07:28:00 GMT'') else ok_with JNull))))))
   = [NaN]"
proof -
  let ?w = "demo_loaded (\<lambda>i. Answer (if i = 0 then throttled (Some ''Wed, 21 Oct 2015 07:28:00 GMT'') else ok_with JNull))"
  let ?req = "request_options ''GET'' (effective_domain no_opts demo_config) ''/rest/api/3/myself''
     (effective_auth no_opts demo_config) (opt_headers no_opts) None"
  let ?pre = "[Sent ?req, Log (RateLimited NaN 3), Timer NaN]"
  let ?w2 = "?w\<lparr>cursor := Suc (cursor ?w), trace := trace ?w @ ?pre\<rparr>"
  have c: "cached ?w = Some demo_config" by (simp add: demo_loaded_def)
  have c2: "cached ?w2 = Some demo_config" by (simp add: demo_loaded_def)
  have 1: "atlassianRequest ''GET'' ''/rest/api/3/myself'' None no_opts ?w =
           atlassianRequest ''GET'' ''/rest/api/3/myself'' None (no_opts\<lparr>retries := Some 2\<rparr>) ?w2"
    using atlassianRequest_step [OF c demo_valid, of "''GET''" "''/rest/api/3/myself''" None]
    by (simp add: demo_loaded_def demo_world_def throttled_def is_2xx_def max_retries_def no_opts_def
        parseInt_date)
  have 2: "atlassianRequest ''GET'' ''/rest/api/3/myself'' None (no_opts\<lparr>retries := Some 2\<rparr>) ?w2 =
           (Resolved JNull, ?w2\<lparr>cursor := Suc (cursor ?w2), trace := trace ?w2 @ [Sent ?req]\<rparr>)"
    using atlassianRequest_step [OF c2 demo_valid_retries, where r1 = "Some 2" and m = "''GET''"
            and p = "''/rest/api/3/myself''" and b = None]
    by (simp add: demo_loaded_def demo_world_def ok_with_def is_2xx_def payload_of_def
        effective_domain_def effective_auth_def no_opts_def)
  have "trace (snd (atlassianRequest ''GET'' ''/rest/api/3/myself'' None no_opts ?w)) =
          trace ?w @ (?pre @ [Sent ?req])"
    unfolding 1 2 by simp
  then have "new_events ?w (snd (atlassianRequest ''GET'' ''/rest/api/3/myself'' None no_opts ?w)) =
          ?pre @ [Sent ?req]"
    by (rule new_events_append)
  then show ?thesis by simp
qed

section \<open>Properties of uploadAttachment\<close>

lemma uploadAttachment_step:
  assumes "loadConfig None w = (Inr c, w0)" and "files w filepath = Some (File fileData)"
  shows "uploadAttachment apiPath filepath filename opts rnd w =
     (case script w (cursor w) of
        Failure m \<Rightarrow>
          (Rejected (NetError m),
           w0\<lparr>cursor := Suc (cursor w),
              trace := trace w @ [Sent (upload_request apiPath filename opts rnd c fileData)]\<rparr>)
      | Answer res \<Rightarrow>
          if is_2xx res then
            (Resolved (payload_of res),
             w0\<lparr>cursor := Suc (cursor w),
                trace := trace w @ [Sent (upload_request apiPath filename opts rnd c fileData)]\<rparr>)
          else if statusCode res = 404 \<or> statusCode res = 400 then
            (case script w (Suc (cursor w)) of
               Failure m2 \<Rightarrow>
                 (Rejected (NetError m2),
                  w0\<lparr>cursor := Suc (Suc (cursor w)),
                     trace := trace w @
                       [Sent (upload_request apiPath filename opts rnd c fileData),
                        Sent ((upload_request apiPath filename opts rnd c fileData)\<lparr>req_method := ''POST''\<rparr>)]\<rparr>)
             | Answer res2 \<Rightarrow>
                 (if is_2xx res2 then Resolved (payload_of res2)
                  else Rejected (UploadError (statusCode res2) (data res2)),
                  w0\<lparr>cursor := Suc (Suc (cursor w)),
                     trace := trace w @
                       [Sent (upload_request apiPath filename opts rnd c fileData),
                        Sent ((upload_request apiPath filename opts rnd c fileData)\<lparr>req_method := ''POST''\<rparr>)]\<rparr>))
          else
            (Rejected (UploadError (statusCode res) (data res)),
             w0\<lparr>cursor := Suc (cursor w),
                trace := trace w @ [Sent (upload_request apiPath filename opts rnd c fileData)]\<rparr>))"
proof -
  have k: "files w0 = files w" "cursor w0 = cursor w" "trace w0 = trace w" "script w0 = script w"
    using loadConfig_keeps [of None w] assms(1) by simp_all
  show ?thesis
    using assms(2)
    by (simp add: uploadAttachment_def assms(1) k send_def upload_request_def effective_domain_def
          effective_auth_def Let_def split: exchange.splits)
qed

text \<open>
  C6. \<open>uploadAttachment\<close>, once the configuration and the file are read: a first answer
  of 404 or 400 makes exactly two requests, the second being the first with its method set
  to \<open>POST\<close> (same path, headers and body), and the outcome is decided by the second
  answer alone (resolved on 2xx, an upload error otherwise); any other first answer that
  is not 2xx is an upload error after that one request.
\<close>

theorem upload_fallback:
  assumes "fst (loadConfig None w) = Inr c" and "files w filepath = Some (File fileData)"
    and "script w (cursor w) = Answer res"
  shows "((statusCode res = 404 \<or> statusCode res = 400) \<longrightarrow>
            requests (new_events w (snd (uploadAttachment apiPath filepath filename opts rnd w))) =
              [upload_request apiPath filename opts rnd c fileData,
               (upload_request apiPath filename opts rnd c fileData)\<lparr>req_method := ''POST''\<rparr>] \<and>
            cursor (snd (uploadAttachment apiPath filepath filename opts rnd w)) = cursor w + 2 \<and>
            (\<forall>res2. script w (cursor w + 1) = Answer res2 \<longrightarrow>
               fst (uploadAttachment apiPath filepath filename opts rnd w) =
                 (if is_2xx res2 then Resolved (payload_of res2)
                  else Rejected (UploadError (statusCode res2) (data res2))))) \<and>
         (\<not> is_2xx res \<and> statusCode res \<noteq> 404 \<and> statusCode res \<noteq> 400 \<longrightarrow>
            fst (uploadAttachment apiPath filepath filename opts rnd w) =
              Rejected (UploadError (statusCode res) (data res)) \<and>
            requests (new_events w (snd (uploadAttachment apiPath filepath filename opts rnd w))) =
              [upload_request apiPath filename opts rnd c fileData] \<and>
            cursor (snd (uploadAttachment apiPath filepath filename opts rnd w)) = cursor w + 1)"
proof -
  let ?w0 = "snd (loadConfig None w)"
  have l: "loadConfig None w = (Inr c, ?w0)" using assms(1) by (metis prod.collapse)
  note st = uploadAttachment_step [OF l assms(2), of apiPath filename opts rnd]
  have k: "trace ?w0 = trace w" by simp
  show ?thesis
  proof (rule conjI, goal_cases)
    case 1
    show ?case
    proof (rule impI)
      assume h: "statusCode res = 404 \<or> statusCode res = 400"
      then have n: "\<not> is_2xx res" by (auto simp: is_2xx_def)
      show "requests (new_events w (snd (uploadAttachment apiPath filepath filename opts rnd w))) =
              [upload_request apiPath filename opts rnd c fileData,
               (upload_request apiPath filename opts rnd c fileData)\<lparr>req_method := ''POST''\<rparr>] \<and>
            cursor (snd (uploadAttachment apiPath filepath filename opts rnd w)) = cursor w + 2 \<and>
            (\<forall>res2. script w (cursor w + 1) = Answer res2 \<longrightarrow>
               fst (uploadAttachment apiPath filepath filename opts rnd w) =
                 (if is_2xx res2 then Resolved (payload_of res2)
                  else Rejected (UploadError (statusCode res2) (data res2))))"
        using st assms(3) h n
        by (cases "script w (Suc (cursor w))") (auto simp: new_events_def)
    qed
  next
    case 2
    show ?case
      using st assms(3) by (auto simp: new_events_def)
  qed
qed

theorem upload_fallback_witness:
  "requests (new_events (demo_backend (\<lambda>i. Answer (if i = 0 then failing_with 404 ''none'' else ok_with JNull)))
     (snd (uploadAttachment ''/wiki/rest/api/content/7/child/attachment'' ''/app/shots/home.png'' ''home.png''
             no_opts ''k3j2'' (demo_backend (\<lambda>i. Answer (if i = 0 then failing_with 404 ''none'' else ok_with JNull))))))
     = [upload_request ''/wiki/rest/api/content/7/child/attachment'' ''home.png'' no_opts ''k3j2'' demo_config ''PNG'',
        (upload_request ''/wiki/rest/api/content/7/child/attachment'' ''home.png'' no_opts ''k3j2'' demo_config ''PNG'')
          \<lparr>req_method := ''POST''\<rparr>] \<and>
   fst (uploadAttachment ''/wiki/rest/api/content/7/child/attachment'' ''/app/shots/home.png'' ''home.png''
          no_opts ''k3j2'' (demo_backend (\<lambda>i. Answer (if i = 0 then failing_with 404 ''none'' else ok_with JNull))))
     = Resolved JNull \<and>
   fst (uploadAttachment ''/wiki/rest/api/content/7/child/attachment'' ''/app/shots/home.png'' ''home.png''
          no_opts ''k3j2'' (demo_backend (\<lambda>i. Answer (failing_with 400 ''bad''))))
     = Rejected (UploadError 400 (units ''bad'')) \<and>
   fst (uploadAttachment ''/wiki/rest/api/content/7/child/attachment'' ''/app/shots/home.png'' ''home.png''
          no_opts ''k3j2'' (demo_backend (\<lambda>i. Answer (failing_with 503 ''down''))))
     = Rejected (UploadError 503 (units ''down'')) \<and>
   cursor (snd (uploadAttachment ''/wiki/rest/api/content/7/child/attachment'' ''/app/shots/home.png'' ''home.png''
          no_opts ''k3j2'' (demo_backend (\<lambda>i. Answer (failing_with 503 ''down''))))) = 1"
proof -
  let ?A = "demo_backend (\<lambda>i. Answer (if i = 0 then failing_with 404 ''none'' else ok_with JNull))"
  let ?B = "demo_backend (\<lambda>i. Answer (failing_with 400 ''bad''))"
  let ?C = "demo_backend (\<lambda>i. Answer (failing_with 503 ''down''))"
  have f: "\<And>a. files (demo_backend a) ''/app/shots/home.png'' = Some (File ''PNG'')"
    by (simp add: demo_backend_def demo_world_def demo_files_def)
  have cur: "\<And>a. cursor (demo_backend a) = 0" by (simp add: demo_backend_def demo_world_def)
  have sA: "script ?A (cursor ?A) = Answer (failing_with 404 ''none'')"
    and sA2: "script ?A (cursor ?A + 1) = Answer (ok_with JNull)"
    and sB: "script ?B (cursor ?B) = Answer (failing_with 400 ''bad'')"
    and sB2: "script ?B (cursor ?B + 1) = Answer (failing_with 400 ''bad'')"
    and sC: "script ?C (cursor ?C) = Answer (failing_with 503 ''down'')"
    by (simp_all add: demo_backend_def demo_world_def)
  have st: "statusCode (failing_with 404 ''none'') = 404" "statusCode (failing_with 400 ''bad'') = 400"
    "statusCode (failing_with 503 ''down'') = 503" "\<not> is_2xx (failing_with 503 ''down'')"
    "\<not> is_2xx (failing_with 400 ''bad'')" "is_2xx (ok_with JNull)" "payload_of (ok_with JNull) = JNull"
    "data (failing_with 400 ''bad'') = units ''bad''" "data (failing_with 503 ''down'') = units ''down''"
    by (simp_all add: failing_with_def ok_with_def is_2xx_def payload_of_def)
  note tA = upload_fallback [OF demo_backend_loads f sA,
      of "''/wiki/rest/api/content/7/child/attachment''" "''home.png''" no_opts "''k3j2''"]
  note tB = upload_fallback [OF demo_backend_loads f sB,
      of "''/wiki/rest/api/content/7/child/attachment''" "''home.png''" no_opts "''k3j2''"]
  note tC = upload_fallback [OF demo_backend_loads f sC,
      of "''/wiki/rest/api/content/7/child/attachment''" "''home.png''" no_opts "''k3j2''"]
  from tA sA2 st show ?thesis
    using tB sB2 tC cur by simp
qed

section \<open>Properties of createProject and createSpace\<close>

lemma emit_fields [simp]:
  "cached (emit evs w) = cached w" "files (emit evs w) = files w" "cwd (emit evs w) = cwd w"
  "penv (emit evs w) = penv w" "script (emit evs w) = script w" "cursor (emit evs w) = cursor w"
  "trace (emit evs w) = trace w @ evs"
  by (simp_all add: emit_def)

lemma demo_loaded_fields [simp]:
  "cached (demo_loaded a) = Some demo_config" "script (demo_loaded a) = a"
  "cursor (demo_loaded a) = 0" "trace (demo_loaded a) = []"
  by (simp_all add: demo_loaded_def demo_world_def)

lemma loadConfig_emit:
  "loadConfig q (emit evs w) = (fst (loadConfig q w), emit evs (snd (loadConfig q w)))"
  by (auto simp: loadConfig_def emit_def Let_def split: option.splits fsnode.splits)

lemma failing_with_fields [simp]:
  "statusCode (failing_with st text) = st" "data (failing_with st text) = units text"
  "is_2xx (failing_with st text) = (200 \<le> st \<and> st < 300)"
  by (simp_all add: failing_with_def is_2xx_def)

lemma ok_with_fields [simp]:
  "statusCode (ok_with j) = 200" "is_2xx (ok_with j)" "payload_of (ok_with j) = j"
  by (simp_all add: ok_with_def is_2xx_def payload_of_def)

lemma configured_emit [simp]: "configured opts (emit evs w) = configured opts w"
  by (simp add: configured_def loadConfig_emit)

lemma request_in_emit [simp]: "request_in m p b opts (emit evs w) = request_in m p b opts w"
  by (simp add: request_in_def loadConfig_emit)

lemma configured_cached:
  assumes "cached w = Some c"
  shows "configured opts w = (effective_domain opts c \<noteq> [] \<and> effective_auth opts c \<noteq> [] \<and>
                               effective_auth opts c \<noteq> ''Og=='')"
    and "request_in m p b opts w =
           request_options m (effective_domain opts c) p (effective_auth opts c) (opt_headers opts) b"
  using assms by (simp_all add: configured_def request_in_def loadConfig_hit)







lemma demo_backend_fields [simp]:
  "script (demo_backend a) = a" "cursor (demo_backend a) = 0" "trace (demo_backend a) = []"
  by (simp_all add: demo_backend_def demo_world_def)

lemma new_events_backend [simp]: "new_events (demo_backend a) w' = trace w'"
  by (simp add: new_events_def)

lemma accented_conflict_fields [simp]:
  "statusCode accented_conflict = 400" "\<not> is_2xx accented_conflict"
  "length (data accented_conflict) = 500"
  by (simp_all add: accented_conflict_def is_2xx_def)

lemma late_conflict_fields [simp]:
  "statusCode late_conflict = 400" "\<not> is_2xx late_conflict"
  "length (data late_conflict) = 501"
  by (simp_all add: late_conflict_def is_2xx_def)



lemma req_method_request_in [simp]: "req_method (request_in m p b opts w) = m"
  by (simp add: request_in_def request_options_def split: sum.splits)


section \<open>Properties of the tree walks\<close>

lemma attempted_pages_simps [simp]:
  "attempted_pages [] = []" "attempted_pages (e # evs) = page_attempt e @ attempted_pages evs"
  "attempted_pages (xs @ ys) = attempted_pages xs @ attempted_pages ys"
  by (simp_all add: attempted_pages_def)

lemma created_issues_simps [simp]:
  "created_issues [] = []" "created_issues (e # evs) = issue_created e @ created_issues evs"
  "created_issues (xs @ ys) = created_issues xs @ created_issues ys"
  by (simp_all add: created_issues_def)

lemma failed_simps [simp]:
  "failed [] = []" "failed (e # evs) = failure_of e @ failed evs"
  "failed (xs @ ys) = failed xs @ failed ys"
  by (simp_all add: failed_def)

lemma attempted_issues_simps [simp]:
  "attempted_issues [] = []" "attempted_issues (e # evs) = issue_outcome e @ attempted_issues evs"
  "attempted_issues (xs @ ys) = attempted_issues xs @ attempted_issues ys"
  by (simp_all add: attempted_issues_def)

lemma transport_event_silent:
  "transport e \<Longrightarrow> page_attempt e = [] \<and> issue_created e = [] \<and> failure_of e = [] \<and> issue_outcome e = []"
  by (cases e rule: transport.cases) simp_all

lemma transport_silent:
  "list_all transport evs \<Longrightarrow>
   attempted_pages evs = [] \<and> created_issues evs = [] \<and> failed evs = [] \<and> attempted_issues evs = []"
  by (induction evs) (auto simp: transport_event_silent)

lemma atlassianRequest_trace:
  "\<exists>evs. trace (snd (atlassianRequest m p b opts w)) = trace w @ evs \<and> list_all transport evs"
proof -
  from atlassianRequest_effect [of m p b opts w] obtain evs where
    "snd (atlassianRequest m p b opts w) =
       (snd (loadConfig None w))\<lparr>cursor := cursor w + length (requests evs), trace := trace w @ evs\<rparr>"
    "list_all transport evs"
    by blast
  then show ?thesis by (intro exI [of _ evs]) simp
qed

lemma await_snd [simp]: "snd (await x) = snd x"
  by (cases x rule: await.cases) simp_all

lemma await_trace:
  "\<exists>evs. trace (snd (await (atlassianRequest m p b opts w))) = trace w @ evs \<and> list_all transport evs"
  using atlassianRequest_trace [of m p b opts w] by simp

lemma createPage_events:
  "\<exists>evs. trace (snd (createPage sk title body pid ls w)) = trace w @ evs \<and>
         attempted_pages evs = [title] \<and> failed evs = []"
proof -
  let ?parent = "case pid of None \<Rightarrow> None | Some v \<Rightarrow> if truthy v then Some v else None"
  let ?w0 = "emit [Log (CreatingPage title ?parent)] w"
  let ?anc = "case pid of None \<Rightarrow> []
              | Some v \<Rightarrow> if truthy v then [(''ancestors'', JArr [JObj [(''id'', v)]])] else []"
  let ?payload = "JObj ([(''type'', JStr ''page''), (''title'', JStr title),
                           (''space'', JObj [(''key'', JStr sk)]),
                           (''body'', JObj [(''storage'',
                              JObj [(''value'', JStr body), (''representation'', JStr ''storage'')])])] @ ?anc)"
  let ?r = "await (atlassianRequest ''POST'' (API @ ''/content'') (Some ?payload) no_opts ?w0)"
  from await_trace [of "''POST''" "API @ ''/content''" "Some ?payload" no_opts ?w0]
  obtain e1 where e1: "trace (snd ?r) = trace ?w0 @ e1" "list_all transport e1" by blast
  note s1 = transport_silent [OF e1(2)]
  show ?thesis
  proof (cases "fst ?r")
    case (Inl e)
    then obtain w1 where "?r = (Inl e, w1)" by (cases ?r) auto
    then have "snd (createPage sk title body pid ls w) = snd ?r"
      by (simp add: createPage_def Let_def)
    then show ?thesis
      using e1(1) s1 by (intro exI [of _ "Log (CreatingPage title ?parent) # e1"]) simp
  next
    case (Inr result)
    then obtain w1 where r: "?r = (Inr result, w1)" by (cases ?r) auto
    then have w1: "snd ?r = w1" by simp
    show ?thesis
    proof (cases "result = JNull \<or> \<not> length ls > 0")
      case True
      then have "snd (createPage sk title body pid ls w) = w1 \<or>
                 snd (createPage sk title body pid ls w) = emit [Log (PageCreated (get_prop result ''id''))] w1"
        using r by (auto simp: createPage_def Let_def)
      then have "snd (createPage sk title body pid ls w) = snd ?r \<or>
                 snd (createPage sk title body pid ls w) = emit [Log (PageCreated (get_prop result ''id''))] (snd ?r)"
        unfolding w1 .
      then show ?thesis
      proof
        assume "snd (createPage sk title body pid ls w) = snd ?r"
        then show ?thesis
          using e1(1) s1 by (intro exI [of _ "Log (CreatingPage title ?parent) # e1"]) simp
      next
        assume "snd (createPage sk title body pid ls w) = emit [Log (PageCreated (get_prop result ''id''))] (snd ?r)"
        then show ?thesis
          using e1(1) s1
          by (intro exI [of _ "Log (CreatingPage title ?parent) # e1 @ [Log (PageCreated (get_prop result ''id''))]"])
             simp
      qed
    next
      case False
      let ?w2 = "emit [Log (PageCreated (get_prop result ''id''))] (snd ?r)"
      let ?lab = "Some (JArr (map (\<lambda>l. JObj [(''prefix'', JStr ''global''), (''name'', JStr l)]) ls))"
      let ?path = "API @ ''/content/'' @ template_text (get_prop result ''id'') @ ''/label''"
      from False r have "snd (createPage sk title body pid ls w) =
          snd (await (atlassianRequest ''POST'' ?path ?lab no_opts
                 (emit [Log (PageCreated (get_prop result ''id''))] w1)))"
        by (simp add: createPage_def Let_def)
      then have c: "snd (createPage sk title body pid ls w) =
          snd (await (atlassianRequest ''POST'' ?path ?lab no_opts ?w2))"
        unfolding w1 .
      from await_trace [of "''POST''" ?path ?lab no_opts ?w2]
      obtain e2 where e2: "trace (snd (await (atlassianRequest ''POST'' ?path ?lab no_opts ?w2))) = trace ?w2 @ e2"
        "list_all transport e2" by blast
      note s2 = transport_silent [OF e2(2)]
      show ?thesis
        using c e1(1) e2(1) s1 s2
        by (intro exI [of _ "Log (CreatingPage title ?parent) # e1 @ [Log (PageCreated (get_prop result ''id''))] @ e2"])
           simp
    qed
  qed
qed

lemma subseq_subset: "subseq xs ys \<Longrightarrow> set xs \<subseteq> set ys"
  by (induction rule: list_emb.induct) auto

lemma page_node_titles:
  "p \<in> set (page_nodes r) \<Longrightarrow>
   p_title p \<in> set (page_titles r) \<and> set (pages_below p) \<subseteq> set (page_titles r)"
proof (induction r rule: page_nodes.induct)
  case (1 title body labels children)
  show ?case
  proof (cases "p = Page title body labels children")
    case True
    then show ?thesis by (auto simp: pages_below_def)
  next
    case False
    with "1.prems" obtain c where c: "c \<in> set children" "p \<in> set (page_nodes c)" by auto
    from "1.IH" [OF c] c(1) show ?thesis by auto
  qed
qed

lemma forest_node_titles:
  "p \<in> set (concat (map page_nodes ps)) \<Longrightarrow>
   p_title p \<in> set (concat (map page_titles ps)) \<and>
   set (pages_below p) \<subseteq> set (concat (map page_titles ps))"
  using page_node_titles by fastforce

lemma page_walk_Nil: "page_walk [] [] []"
  by (simp add: page_walk_def)

lemma page_walk_failed:
  assumes "page_walk rest Ar Fr"
  shows "page_walk (Page t b l cs # rest) (t # Ar) (t # Fr)"
  unfolding page_walk_def
proof (intro conjI impI ballI)
  from assms have s: "subseq Ar (concat (map page_titles rest))" by (simp add: page_walk_def)
  then have "subseq Ar (concat (map page_titles cs) @ concat (map page_titles rest))"
    by (simp add: list_emb_append2)
  then show "subseq (t # Ar) (concat (map page_titles (Page t b l cs # rest)))" by simp
  from assms show "set (t # Fr) \<subseteq> set (t # Ar)" unfolding page_walk_def by auto
  fix p
  assume d: "distinct (concat (map page_titles (Page t b l cs # rest)))"
    and p: "p \<in> set (concat (map page_nodes (Page t b l cs # rest)))"
    and f: "p_title p \<in> set (t # Fr)"
  from assms have Fr: "set Fr \<subseteq> set (concat (map page_titles rest))"
    using subseq_subset [OF s] unfolding page_walk_def by blast
  have Ar: "set Ar \<subseteq> set (concat (map page_titles rest))" using subseq_subset [OF s] .
  from d have d1: "t \<notin> set (concat (map page_titles cs))" "t \<notin> set (concat (map page_titles rest))"
    "\<And>x. x \<in> set (concat (map page_titles cs)) \<Longrightarrow> x \<notin> set (concat (map page_titles rest))"
    "distinct (concat (map page_titles rest))"
    by auto
  from p consider "p = Page t b l cs" | "p \<in> set (concat (map page_nodes cs))"
    | "p \<in> set (concat (map page_nodes rest))" by auto
  then show "set (pages_below p) \<inter> set (t # Ar) = {}"
  proof cases
    case 1
    then have "set (pages_below p) = set (concat (map page_titles cs))" by (simp add: pages_below_def)
    with d1 Ar show ?thesis by (simp add: disjoint_iff) blast
  next
    case 2
    from forest_node_titles [OF 2] f d1 Fr have False by (simp add: subset_iff) blast
    then show ?thesis ..
  next
    case 3
    note n = forest_node_titles [OF 3]
    with f d1 have "p_title p \<in> set Fr" by (simp add: subset_iff) blast
    with assms d1(4) 3 have "set (pages_below p) \<inter> set Ar = {}" unfolding page_walk_def by blast
    with n d1 show ?thesis by (simp add: disjoint_iff subset_iff) blast
  qed
qed

lemma page_walk_created:
  assumes "page_walk cs Ac Fc" and "page_walk rest Ar Fr"
  shows "page_walk (Page t b l cs # rest) (t # Ac @ Ar) (Fc @ Fr)"
  unfolding page_walk_def
proof (intro conjI impI ballI)
  from assms have s: "subseq Ac (concat (map page_titles cs))" "subseq Ar (concat (map page_titles rest))"
    by (simp_all add: page_walk_def)
  then have "subseq (Ac @ Ar) (concat (map page_titles cs) @ concat (map page_titles rest))"
    by (rule list_emb_append_mono)
  then show "subseq (t # Ac @ Ar) (concat (map page_titles (Page t b l cs # rest)))" by simp
  from assms show "set (Fc @ Fr) \<subseteq> set (t # Ac @ Ar)" unfolding page_walk_def by auto
  fix p
  assume d: "distinct (concat (map page_titles (Page t b l cs # rest)))"
    and p: "p \<in> set (concat (map page_nodes (Page t b l cs # rest)))"
    and f: "p_title p \<in> set (Fc @ Fr)"
  have Ac: "set Ac \<subseteq> set (concat (map page_titles cs))" using subseq_subset [OF s(1)] .
  have Ar: "set Ar \<subseteq> set (concat (map page_titles rest))" using subseq_subset [OF s(2)] .
  from assms Ac Ar have Fc: "set Fc \<subseteq> set (concat (map page_titles cs))"
    and Fr: "set Fr \<subseteq> set (concat (map page_titles rest))"
    unfolding page_walk_def by blast+
  from d have d1: "t \<notin> set (concat (map page_titles cs))" "t \<notin> set (concat (map page_titles rest))"
    "\<And>x. x \<in> set (concat (map page_titles cs)) \<Longrightarrow> x \<notin> set (concat (map page_titles rest))"
    "distinct (concat (map page_titles rest))" "distinct (concat (map page_titles cs))"
    by auto
  from p consider "p = Page t b l cs" | "p \<in> set (concat (map page_nodes cs))"
    | "p \<in> set (concat (map page_nodes rest))" by auto
  then show "set (pages_below p) \<inter> set (t # Ac @ Ar) = {}"
  proof cases
    case 1
    with f Fc Fr d1 have False by (simp add: subset_iff) blast
    then show ?thesis ..
  next
    case 2
    note n = forest_node_titles [OF 2]
    with f d1 Fr have "p_title p \<in> set Fc" by (simp add: subset_iff) blast
    with assms(1) d1(5) 2 have "set (pages_below p) \<inter> set Ac = {}" unfolding page_walk_def by blast
    with n d1 Ar show ?thesis by (simp add: disjoint_iff subset_iff) blast
  next
    case 3
    note n = forest_node_titles [OF 3]
    with f d1 Fc have "p_title p \<in> set Fr" by (simp add: subset_iff) blast
    with assms(2) d1(4) 3 have "set (pages_below p) \<inter> set Ar = {}" unfolding page_walk_def by blast
    with n d1 Ac show ?thesis by (simp add: disjoint_iff subset_iff) blast
  qed
qed

lemma pause_trace:
  "\<exists>evs. trace (pause d w) = trace w @ evs \<and> list_all transport evs"
  by (cases "d > 0") (auto simp: pause_def)

lemma build_pages_events:
  "\<exists>evs. trace (build_pages sk pid ps d w) = trace w @ evs \<and>
         page_walk ps (attempted_pages evs) (failed evs)"
proof (induction sk pid ps d w rule: build_pages.induct)
  case (1 spaceKey parentId delayMs w)
  show ?case by (intro exI [of _ "[]"]) (simp add: page_walk_Nil)
next
  case (2 spaceKey parentId title body labels children rest delayMs w)
  let ?ls = "case labels of None \<Rightarrow> [] | Some ls \<Rightarrow> ls"
  let ?r = "createPage spaceKey title body parentId ?ls w"
  let ?mid = "case ?r of
          (Inr created, w1) \<Rightarrow>
            if children \<noteq> []
            then build_pages spaceKey (get_prop created ''id'') children delayMs (pause delayMs w1)
            else pause delayMs w1
        | (Inl e, w1) \<Rightarrow> emit [Log (ErrorCreating title (message e))] w1"
  from createPage_events [of spaceKey title body parentId ?ls w] obtain ce where
    ce: "trace (snd ?r) = trace w @ ce" "attempted_pages ce = [title]" "failed ce = []"
    by blast
  from "2.IH"(2) obtain er where
    er: "trace (build_pages spaceKey parentId rest delayMs ?mid) = trace ?mid @ er"
        "page_walk rest (attempted_pages er) (failed er)"
    by blast
  have mid: "\<exists>em. trace ?mid = trace w @ em \<and>
               ((attempted_pages em = [title] \<and> failed em = [title]) \<or>
                (\<exists>A F. attempted_pages em = title # A \<and> failed em = F \<and> page_walk children A F))"
  proof (cases ?r)
    case (Pair res w1)
    then have w1: "snd ?r = w1" by simp
    show ?thesis
    proof (cases res)
      case (Inl e)
      with Pair have m: "?mid = emit [Log (ErrorCreating title (message e))] w1" by simp
      show ?thesis
        unfolding m using ce w1
        by (intro exI [of _ "ce @ [Log (ErrorCreating title (message e))]"]) simp
    next
      case (Inr created)
      from pause_trace [of delayMs w1] obtain pe where
        pe: "trace (pause delayMs w1) = trace w1 @ pe" "list_all transport pe" by blast
      note sp = transport_silent [OF pe(2)]
      show ?thesis
      proof (cases "children = []")
        case True
        with Pair Inr have m: "?mid = pause delayMs w1" by simp
        show ?thesis
          unfolding m using ce w1 pe(1) sp True
          by (intro exI [of _ "ce @ pe"]) (simp add: page_walk_Nil)
      next
        case False
        with Pair Inr have m: "?mid = build_pages spaceKey (get_prop created ''id'') children delayMs (pause delayMs w1)"
          by simp
        from "2.IH"(1) [OF Pair [symmetric] Inr False] obtain ec where
          ec: "trace (build_pages spaceKey (get_prop created ''id'') children delayMs (pause delayMs w1)) =
                 trace (pause delayMs w1) @ ec"
              "page_walk children (attempted_pages ec) (failed ec)"
          by blast
        show ?thesis
          unfolding m using ce w1 pe(1) sp ec
          by (intro exI [of _ "ce @ pe @ ec"]) simp
      qed
    qed
  qed
  then obtain em where em: "trace ?mid = trace w @ em"
    and cases: "(attempted_pages em = [title] \<and> failed em = [title]) \<or>
                (\<exists>A F. attempted_pages em = title # A \<and> failed em = F \<and> page_walk children A F)"
    by blast
  have t: "trace (build_pages spaceKey parentId (Page title body labels children # rest) delayMs w) =
           trace w @ (em @ er)"
    using er(1) em by simp
  from cases have "page_walk (Page title body labels children # rest)
                     (attempted_pages (em @ er)) (failed (em @ er))"
  proof
    assume "attempted_pages em = [title] \<and> failed em = [title]"
    then show ?thesis using page_walk_failed [OF er(2), of title body labels children] by simp
  next
    assume "\<exists>A F. attempted_pages em = title # A \<and> failed em = F \<and> page_walk children A F"
    then obtain A F where "attempted_pages em = title # A" "failed em = F" "page_walk children A F"
      by blast
    then show ?thesis using page_walk_created [OF _ er(2), of children A F title body labels] by simp
  qed
  with t show ?case by blast
qed

lemma issue_summaries_unfold: "issue_summaries i = i_summary i # issues_below i"
  by (cases i) (simp add: issues_below_def)

lemma issue_nodes_unfold: "issue_nodes i = i # concat (map issue_nodes (i_children i))"
  by (cases i) simp

lemma issue_node_summaries:
  "p \<in> set (issue_nodes r) \<Longrightarrow>
   i_summary p \<in> set (issue_summaries r) \<and> set (issues_below p) \<subseteq> set (issue_summaries r)"
proof (induction r rule: issue_nodes.induct)
  case (1 type summary description priority labels components extra children)
  show ?case
  proof (cases "p = Issue type summary description priority labels components extra children")
    case True
    then show ?thesis by (auto simp: issues_below_def)
  next
    case False
    with "1.prems" obtain c where c: "c \<in> set children" "p \<in> set (issue_nodes c)" by auto
    from "1.IH" [OF c] c(1) show ?thesis by auto
  qed
qed

lemma forest_node_summaries:
  "p \<in> set (concat (map issue_nodes is)) \<Longrightarrow>
   i_summary p \<in> set (concat (map issue_summaries is)) \<and>
   set (issues_below p) \<subseteq> set (concat (map issue_summaries is))"
  using issue_node_summaries by fastforce

lemma issue_walk_Nil: "issue_walk [] [] []"
  by (simp add: issue_walk_def)

lemma issue_walk_failed:
  assumes "issue_walk rest Ar Fr" and "i_summary r = t"
  shows "issue_walk (r # rest) (t # Ar) (t # Fr)"
  unfolding issue_walk_def
proof (intro conjI impI ballI)
  from assms have s: "subseq Ar (concat (map issue_summaries rest))" by (simp add: issue_walk_def)
  then have "subseq Ar (issues_below r @ concat (map issue_summaries rest))"
    by (simp add: list_emb_append2)
  then show "subseq (t # Ar) (concat (map issue_summaries (r # rest)))"
    using assms(2) by (simp add: issue_summaries_unfold)
  from assms show "set (t # Fr) \<subseteq> set (t # Ar)" unfolding issue_walk_def by auto
  fix p
  assume d: "distinct (concat (map issue_summaries (r # rest)))"
    and p: "p \<in> set (concat (map issue_nodes (r # rest)))"
    and f: "i_summary p \<in> set (t # Fr)"
  from assms have Fr: "set Fr \<subseteq> set (concat (map issue_summaries rest))"
    using subseq_subset [OF s] unfolding issue_walk_def by blast
  have Ar: "set Ar \<subseteq> set (concat (map issue_summaries rest))" using subseq_subset [OF s] .
  from d assms(2) have d1: "t \<notin> set (issues_below r)" "t \<notin> set (concat (map issue_summaries rest))"
    "\<And>x. x \<in> set (issues_below r) \<Longrightarrow> x \<notin> set (concat (map issue_summaries rest))"
    "distinct (concat (map issue_summaries rest))"
    by (auto simp: issue_summaries_unfold)
  from p consider "p = r" | "p \<in> set (concat (map issue_nodes (i_children r)))"
    | "p \<in> set (concat (map issue_nodes rest))" by (auto simp: issue_nodes_unfold [of r])
  then show "set (issues_below p) \<inter> set (t # Ar) = {}"
  proof cases
    case 1
    with d1 Ar show ?thesis by (simp add: disjoint_iff) blast
  next
    case 2
    from forest_node_summaries [OF 2] have "i_summary p \<in> set (issues_below r)"
      by (simp add: issues_below_def)
    with f d1 Fr have False by (simp add: subset_iff) blast
    then show ?thesis ..
  next
    case 3
    note n = forest_node_summaries [OF 3]
    with f d1 have "i_summary p \<in> set Fr" by (simp add: subset_iff) blast
    with assms d1(4) 3 have "set (issues_below p) \<inter> set Ar = {}" unfolding issue_walk_def by blast
    with n d1 show ?thesis by (simp add: disjoint_iff subset_iff) blast
  qed
qed

lemma issue_walk_created:
  assumes "issue_walk (i_children r) Ac Fc" and "issue_walk rest Ar Fr" and "i_summary r = t"
  shows "issue_walk (r # rest) (t # Ac @ Ar) (Fc @ Fr)"
  unfolding issue_walk_def
proof (intro conjI impI ballI)
  from assms have s: "subseq Ac (issues_below r)" "subseq Ar (concat (map issue_summaries rest))"
    by (simp_all add: issue_walk_def issues_below_def)
  then have "subseq (Ac @ Ar) (issues_below r @ concat (map issue_summaries rest))"
    by (rule list_emb_append_mono)
  then show "subseq (t # Ac @ Ar) (concat (map issue_summaries (r # rest)))"
    using assms(3) by (simp add: issue_summaries_unfold)
  from assms show "set (Fc @ Fr) \<subseteq> set (t # Ac @ Ar)" unfolding issue_walk_def by auto
  fix p
  assume d: "distinct (concat (map issue_summaries (r # rest)))"
    and p: "p \<in> set (concat (map issue_nodes (r # rest)))"
    and f: "i_summary p \<in> set (Fc @ Fr)"
  have Ac: "set Ac \<subseteq> set (issues_below r)" using subseq_subset [OF s(1)] .
  have Ar: "set Ar \<subseteq> set (concat (map issue_summaries rest))" using subseq_subset [OF s(2)] .
  from assms Ac Ar have Fc: "set Fc \<subseteq> set (issues_below r)"
    and Fr: "set Fr \<subseteq> set (concat (map issue_summaries rest))"
    unfolding issue_walk_def by blast+
  from d assms(3) have d1: "t \<notin> set (issues_below r)" "t \<notin> set (concat (map issue_summaries rest))"
    "\<And>x. x \<in> set (issues_below r) \<Longrightarrow> x \<notin> set (concat (map issue_summaries rest))"
    "distinct (concat (map issue_summaries rest))" "distinct (issues_below r)"
    by (auto simp: issue_summaries_unfold)
  from p consider "p = r" | "p \<in> set (concat (map issue_nodes (i_children r)))"
    | "p \<in> set (concat (map issue_nodes rest))" by (auto simp: issue_nodes_unfold [of r])
  then show "set (issues_below p) \<inter> set (t # Ac @ Ar) = {}"
  proof cases
    case 1
    with f Fc Fr d1 assms(3) have False by (simp add: subset_iff) blast
    then show ?thesis ..
  next
    case 2
    from forest_node_summaries [OF 2]
    have n: "i_summary p \<in> set (issues_below r)" "set (issues_below p) \<subseteq> set (issues_below r)"
      by (simp_all add: issues_below_def)
    with f d1 Fr have "i_summary p \<in> set Fc" by (simp add: subset_iff) blast
    with assms(1) d1(5) 2 have "set (issues_below p) \<inter> set Ac = {}"
      unfolding issue_walk_def issues_below_def by blast
    with n d1 Ar show ?thesis by (simp add: disjoint_iff subset_iff) blast
  next
    case 3
    note n = forest_node_summaries [OF 3]
    with f d1 Fc have "i_summary p \<in> set Fr" by (simp add: subset_iff) blast
    with assms(2) d1(4) 3 have "set (issues_below p) \<inter> set Ar = {}" unfolding issue_walk_def by blast
    with n d1 Ac show ?thesis by (simp add: disjoint_iff subset_iff) blast
  qed
qed

lemma subseq_child_summaries: "subseq (map i_summary cs) (concat (map issue_summaries cs))"
proof (induction cs)
  case Nil
  show ?case by simp
next
  case (Cons c cs)
  then have "subseq (map i_summary cs) (issues_below c @ concat (map issue_summaries cs))"
    by (simp add: list_emb_append2)
  then show ?case by (simp add: issue_summaries_unfold [of c])
qed

lemma below_children_disjoint:
  assumes "distinct (concat (map issue_summaries cs))"
    and "p \<in> set (concat (map issue_nodes cs))"
    and "i_summary p \<in> set (map i_summary cs)"
  shows "\<forall>x \<in> set (issues_below p). x \<notin> set (map i_summary cs)"
  using assms
proof (induction cs)
  case Nil
  then show ?case by simp
next
  case (Cons c cs)
  have u: "concat (map issue_summaries (c # cs)) =
           i_summary c # issues_below c @ concat (map issue_summaries cs)"
    by (simp add: issue_summaries_unfold [of c])
  from Cons.prems(1) have d1: "i_summary c \<notin> set (issues_below c)"
    and d2: "i_summary c \<notin> set (concat (map issue_summaries cs))"
    and d3: "\<forall>x \<in> set (issues_below c). x \<notin> set (concat (map issue_summaries cs))"
    and d4: "distinct (concat (map issue_summaries cs))"
    unfolding u by auto
  have top: "\<forall>x \<in> set (map i_summary cs). x \<in> set (concat (map issue_summaries cs))"
    using subseq_subset [OF subseq_child_summaries [of cs]] by blast
  have m: "set (map i_summary (c # cs)) = insert (i_summary c) (set (map i_summary cs))"
    by simp
  from Cons.prems(2) have "p = c \<or> p \<in> set (concat (map issue_nodes (i_children c))) \<or>
      p \<in> set (concat (map issue_nodes cs))"
    by (simp add: issue_nodes_unfold [of c])
  then consider "p = c" | "p \<in> set (concat (map issue_nodes (i_children c)))"
    | "p \<in> set (concat (map issue_nodes cs))" by blast
  then show ?case
  proof cases
    case 1
    show ?thesis unfolding m 1 using d1 d3 top by blast
  next
    case 2
    from forest_node_summaries [OF 2] have n: "i_summary p \<in> set (issues_below c)"
      by (simp add: issues_below_def)
    from Cons.prems(3) have "i_summary p = i_summary c \<or> i_summary p \<in> set (map i_summary cs)"
      unfolding m by blast
    with n d1 d3 top have False by metis
    then show ?thesis ..
  next
    case 3
    from forest_node_summaries [OF 3]
    have n1: "i_summary p \<in> set (concat (map issue_summaries cs))"
      and n2: "\<forall>x \<in> set (issues_below p). x \<in> set (concat (map issue_summaries cs))"
      by blast+
    from Cons.prems(3) have "i_summary p = i_summary c \<or> i_summary p \<in> set (map i_summary cs)"
      unfolding m by blast
    with n1 d2 have "i_summary p \<in> set (map i_summary cs)" by metis
    from Cons.IH [OF d4 3 this] have "\<forall>x \<in> set (issues_below p). x \<notin> set (map i_summary cs)" .
    with n2 d2 show ?thesis unfolding m by blast
  qed
qed

lemma issue_walk_children:
  assumes "set F \<subseteq> set (map i_summary cs)"
  shows "issue_walk cs (map i_summary cs) F"
  unfolding issue_walk_def
proof (intro conjI impI ballI)
  show "subseq (map i_summary cs) (concat (map issue_summaries cs))" by (rule subseq_child_summaries)
  show "set F \<subseteq> set (map i_summary cs)" by (rule assms)
  fix p
  assume a: "distinct (concat (map issue_summaries cs))" "p \<in> set (concat (map issue_nodes cs))"
    and f: "i_summary p \<in> set F"
  from f assms have "i_summary p \<in> set (map i_summary cs)" by blast
  from below_children_disjoint [OF a this]
  show "set (issues_below p) \<inter> set (map i_summary cs) = {}" by blast
qed

lemma report_ok_Nil: "report_ok [] evs" if "list_all transport evs"
  using transport_silent [OF that] by (simp add: report_ok_def)

lemma report_ok_append:
  "report_ok n1 e1 \<Longrightarrow> report_ok n2 e2 \<Longrightarrow> report_ok (n1 @ n2) (e1 @ e2)"
  by (simp add: report_ok_def)

lemma created_subseq_attempted: "subseq (map snd (created_issues evs)) (attempted_issues evs)"
proof (induction evs)
  case Nil
  show ?case by simp
next
  case (Cons e evs)
  have "issue_outcome e = map snd (issue_created e) \<or> (issue_created e = [] \<and> (\<exists>s. issue_outcome e = [s])) \<or>
        (issue_created e = [] \<and> issue_outcome e = [])"
    by (cases e rule: issue_outcome.cases) simp_all
  with Cons show ?case by (auto intro: list_emb_append_mono)
qed

lemma createIssue_events:
  "\<exists>evs. trace (snd (createIssue pk ty s desc io w)) = trace w @ evs \<and> failed evs = [] \<and>
         (case fst (createIssue pk ty s desc io w) of
            Inl e \<Rightarrow> created_issues evs = [] \<and> attempted_issues evs = []
          | Inr result \<Rightarrow> created_issues evs = [(get_prop result ''key'', s)] \<and>
                          attempted_issues evs = [s])"
proof -
  let ?payload = "Some (JObj [(''fields'', JObj (issue_fields pk ty s desc io))])"
  let ?r = "await (atlassianRequest ''POST'' (API_V3 @ ''/issue'') ?payload no_opts w)"
  from await_trace [of "''POST''" "API_V3 @ ''/issue''" ?payload no_opts w]
  obtain e1 where e1: "trace (snd ?r) = trace w @ e1" "list_all transport e1" by blast
  note s1 = transport_silent [OF e1(2)]
  obtain res w1 where r: "?r = (res, w1)" by (cases ?r) auto
  then have w1: "snd ?r = w1" by simp
  show ?thesis
  proof (cases res)
    case (Inl e)
    with r have "createIssue pk ty s desc io w = (Inl e, w1)"
      by (simp add: createIssue_def Let_def)
    then show ?thesis using e1(1) s1 w1 by (intro exI [of _ e1]) simp
  next
    case (Inr result)
    show ?thesis
    proof (cases "result = JNull")
      case True
      with r Inr have "createIssue pk ty s desc io w =
          (Inl (TypeError ''Cannot read properties of null (reading 'key')''), w1)"
        by (simp add: createIssue_def Let_def)
      then show ?thesis using e1(1) s1 w1 by (intro exI [of _ e1]) simp
    next
      case False
      with r Inr have "createIssue pk ty s desc io w =
          (Inr result, emit [Log (IssueCreated (get_prop result ''key'') s)] w1)"
        by (simp add: createIssue_def Let_def)
      then show ?thesis
        using e1(1) s1 w1
        by (intro exI [of _ "e1 @ [Log (IssueCreated (get_prop result ''key'') s)]"]) simp
    qed
  qed
qed

lemma report_ok_created:
  assumes "created_issues ce = [(get_prop result ''key'', s)]" and "attempted_issues ce = [s]"
    and "failed ce = []"
  shows "report_ok [result] ce"
  using assms by (simp add: report_ok_def)

lemma report_ok_failed:
  assumes "created_issues ce = []" and "attempted_issues ce = []" and "failed ce = []"
    and "failure_of ev = [s]" and "issue_outcome ev = [s]" and "issue_created ev = []"
  shows "report_ok [] (ce @ [ev])"
  using assms by (simp add: report_ok_def)

lemma create_children_events:
  "\<exists>new evs w'. create_children pk result d cs (created, w) = (created @ new, w') \<and>
     trace w' = trace w @ evs \<and> attempted_issues evs = map i_summary cs \<and>
     set (failed evs) \<subseteq> set (map i_summary cs) \<and> report_ok new evs"
proof (induction cs arbitrary: created w)
  case Nil
  show ?case
    by (intro exI [of _ "[]"] exI [of _ w]) (simp add: report_ok_def)
next
  case (Cons child rest)
  let ?io = "\<lparr> io_priority = i_priority child, io_labels = i_labels child,
               io_components = i_components child, io_parentKey = get_prop result ''key'',
               io_assigneeId = None, io_storyPoints = None, io_fields = i_fields child \<rparr>"
  let ?r = "createIssue pk (or_str (i_type child) ''Sub-task'') (i_summary child)
             (description_or_empty (i_description child)) ?io w"
  from createIssue_events [of pk "or_str (i_type child) ''Sub-task''" "i_summary child"
         "description_or_empty (i_description child)" ?io w]
  obtain ce where ce: "trace (snd ?r) = trace w @ ce" "failed ce = []"
    "case fst ?r of
       Inl e \<Rightarrow> created_issues ce = [] \<and> attempted_issues ce = []
     | Inr res \<Rightarrow> created_issues ce = [(get_prop res ''key'', i_summary child)] \<and>
                  attempted_issues ce = [i_summary child]"
    by blast
  obtain res w1 where r: "?r = (res, w1)" by (cases ?r) auto
  then have w1: "trace w1 = trace w @ ce" using ce(1) by simp
  show ?case
  proof (cases res)
    case (Inr childResult)
    with r ce(3) have c: "created_issues ce = [(get_prop childResult ''key'', i_summary child)]"
      "attempted_issues ce = [i_summary child]" by simp_all
    from pause_trace [of d w1] obtain pe where
      pe: "trace (pause d w1) = trace w1 @ pe" "list_all transport pe" by blast
    note sp = transport_silent [OF pe(2)]
    from Cons.IH [of "created @ [childResult]" "pause d w1"] obtain new evs w' where
      ih: "create_children pk result d rest (created @ [childResult], pause d w1) =
             ((created @ [childResult]) @ new, w')"
          "trace w' = trace (pause d w1) @ evs" "attempted_issues evs = map i_summary rest"
          "set (failed evs) \<subseteq> set (map i_summary rest)" "report_ok new evs"
      by blast
    have 1: "create_children pk result d (child # rest) (created, w) = (created @ (childResult # new), w')"
      using r Inr ih(1) by simp
    have 2: "trace w' = trace w @ (ce @ pe @ evs)" using ih(2) pe(1) w1 by simp
    have 3: "attempted_issues (ce @ pe @ evs) = map i_summary (child # rest)"
      using c ih(3) sp by simp
    have 4: "set (failed (ce @ pe @ evs)) \<subseteq> set (map i_summary (child # rest))"
      using ce(2) ih(4) sp by auto
    have "report_ok ([childResult] @ [] @ new) (ce @ pe @ evs)"
      by (intro report_ok_append report_ok_created [OF c ce(2)] report_ok_Nil [OF pe(2)] ih(5))
    then have 5: "report_ok (childResult # new) (ce @ pe @ evs)" by simp
    from 1 2 3 4 5 show ?thesis by blast
  next
    case (Inl e)
    with r ce(3) have c: "created_issues ce = []" "attempted_issues ce = []" by simp_all
    let ?ev = "Log (ErrorCreatingChild (i_summary child) (message e))"
    from Cons.IH [of created "emit [?ev] w1"] obtain new evs w' where
      ih: "create_children pk result d rest (created, emit [?ev] w1) = (created @ new, w')"
          "trace w' = trace (emit [?ev] w1) @ evs" "attempted_issues evs = map i_summary rest"
          "set (failed evs) \<subseteq> set (map i_summary rest)" "report_ok new evs"
      by blast
    have 1: "create_children pk result d (child # rest) (created, w) = (created @ new, w')"
      using r Inl ih(1) by simp
    have 2: "trace w' = trace w @ ((ce @ [?ev]) @ evs)" using ih(2) w1 by simp
    have 3: "attempted_issues ((ce @ [?ev]) @ evs) = map i_summary (child # rest)"
      using c ih(3) by simp
    have 4: "set (failed ((ce @ [?ev]) @ evs)) \<subseteq> set (map i_summary (child # rest))"
      using ce(2) ih(4) by auto
    have "report_ok ([] @ new) ((ce @ [?ev]) @ evs)"
      by (intro report_ok_append report_ok_failed [OF c ce(2)] ih(5)) simp_all
    then have 5: "report_ok new ((ce @ [?ev]) @ evs)" by simp
    from 1 2 3 4 5 show ?thesis by blast
  qed
qed

lemma create_issues_events:
  "\<exists>new evs w'. create_issues pk d is (created, w) = (created @ new, w') \<and>
     trace w' = trace w @ evs \<and> issue_walk is (attempted_issues evs) (failed evs) \<and>
     report_ok new evs"
proof (induction "is" arbitrary: created w)
  case Nil
  show ?case
    by (intro exI [of _ "[]"] exI [of _ w]) (simp add: report_ok_def issue_walk_Nil)
next
  case (Cons issue rest)
  let ?io = "\<lparr> io_priority = i_priority issue, io_labels = i_labels issue,
               io_components = i_components issue, io_parentKey = None,
               io_assigneeId = None, io_storyPoints = None, io_fields = i_fields issue \<rparr>"
  let ?r = "createIssue pk (or_str (i_type issue) ''Story'') (i_summary issue)
             (description_or_empty (i_description issue)) ?io w"
  from createIssue_events [of pk "or_str (i_type issue) ''Story''" "i_summary issue"
         "description_or_empty (i_description issue)" ?io w]
  obtain ce where ce: "trace (snd ?r) = trace w @ ce" "failed ce = []"
    "case fst ?r of
       Inl e \<Rightarrow> created_issues ce = [] \<and> attempted_issues ce = []
     | Inr res \<Rightarrow> created_issues ce = [(get_prop res ''key'', i_summary issue)] \<and>
                  attempted_issues ce = [i_summary issue]"
    by blast
  obtain res w1 where r: "?r = (res, w1)" by (cases ?r) auto
  then have w1: "trace w1 = trace w @ ce" using ce(1) by simp
  show ?case
  proof (cases res)
    case (Inr result)
    with r ce(3) have c: "created_issues ce = [(get_prop result ''key'', i_summary issue)]"
      "attempted_issues ce = [i_summary issue]" by simp_all
    from pause_trace [of d w1] obtain pe where
      pe: "trace (pause d w1) = trace w1 @ pe" "list_all transport pe" by blast
    note sp = transport_silent [OF pe(2)]
    let ?mid = "if i_children issue \<noteq> []
             then create_children pk result d (i_children issue) (created @ [result], pause d w1)
             else (created @ [result], pause d w1)"
    have "\<exists>newc ec wm. ?mid = ((created @ [result]) @ newc, wm) \<and> trace wm = trace (pause d w1) @ ec \<and>
            attempted_issues ec = map i_summary (i_children issue) \<and>
            set (failed ec) \<subseteq> set (map i_summary (i_children issue)) \<and> report_ok newc ec"
    proof (cases "i_children issue = []")
      case True
      then show ?thesis
        by (intro exI [of _ "[]"] exI [of _ "pause d w1"]) (simp add: report_ok_def)
    next
      case False
      then show ?thesis
        using create_children_events [of pk result d "i_children issue" "created @ [result]" "pause d w1"]
        by simp
    qed
    then obtain newc ec wm where
      m: "?mid = ((created @ [result]) @ newc, wm)" "trace wm = trace (pause d w1) @ ec"
         "attempted_issues ec = map i_summary (i_children issue)"
         "set (failed ec) \<subseteq> set (map i_summary (i_children issue))" "report_ok newc ec"
      by blast
    from Cons.IH [of "(created @ [result]) @ newc" wm] obtain new evs w' where
      ih: "create_issues pk d rest ((created @ [result]) @ newc, wm) = (((created @ [result]) @ newc) @ new, w')"
          "trace w' = trace wm @ evs" "issue_walk rest (attempted_issues evs) (failed evs)"
          "report_ok new evs"
      by blast
    have "create_issues pk d (issue # rest) (created, w) = create_issues pk d rest ?mid"
      using r Inr by simp
    then have 1: "create_issues pk d (issue # rest) (created, w) = (created @ (result # newc @ new), w')"
      using m(1) ih(1) by simp
    have 2: "trace w' = trace w @ (ce @ pe @ ec @ evs)" using ih(2) m(2) pe(1) w1 by simp
    have wc: "issue_walk (i_children issue) (map i_summary (i_children issue)) (failed ec)"
      using m(4) by (rule issue_walk_children)
    have "issue_walk (issue # rest)
            (i_summary issue # map i_summary (i_children issue) @ attempted_issues evs)
            (failed ec @ failed evs)"
      using wc ih(3) by (rule issue_walk_created) simp
    then have 3: "issue_walk (issue # rest) (attempted_issues (ce @ pe @ ec @ evs)) (failed (ce @ pe @ ec @ evs))"
      using c ce(2) sp m(3) by simp
    have "report_ok ([result] @ [] @ newc @ new) (ce @ pe @ ec @ evs)"
      by (intro report_ok_append report_ok_created [OF c ce(2)] report_ok_Nil [OF pe(2)] m(5) ih(4))
    then have 4: "report_ok (result # newc @ new) (ce @ pe @ ec @ evs)" by simp
    from 1 2 3 4 show ?thesis by blast
  next
    case (Inl e)
    with r ce(3) have c: "created_issues ce = []" "attempted_issues ce = []" by simp_all
    let ?ev = "Log (ErrorCreating (i_summary issue) (message e))"
    from Cons.IH [of created "emit [?ev] w1"] obtain new evs w' where
      ih: "create_issues pk d rest (created, emit [?ev] w1) = (created @ new, w')"
          "trace w' = trace (emit [?ev] w1) @ evs" "issue_walk rest (attempted_issues evs) (failed evs)"
          "report_ok new evs"
      by blast
    have 1: "create_issues pk d (issue # rest) (created, w) = (created @ new, w')"
      using r Inl ih(1) by simp
    have 2: "trace w' = trace w @ ((ce @ [?ev]) @ evs)" using ih(2) w1 by simp
    have "issue_walk (issue # rest) (i_summary issue # attempted_issues evs) (i_summary issue # failed evs)"
      using ih(3) by (rule issue_walk_failed) simp
    then have 3: "issue_walk (issue # rest) (attempted_issues ((ce @ [?ev]) @ evs)) (failed ((ce @ [?ev]) @ evs))"
      using c ce(2) by simp
    have "report_ok ([] @ new) ((ce @ [?ev]) @ evs)"
      by (intro report_ok_append report_ok_failed [OF c ce(2)] ih(4)) simp_all
    then have 4: "report_ok new ((ce @ [?ev]) @ evs)" by simp
    from 1 2 3 4 show ?thesis by blast
  qed
qed

lemma build_pages_new_events:
  "page_walk ps (attempted_pages (new_events w (build_pages sk pid ps d w)))
                (failed (new_events w (build_pages sk pid ps d w)))"
proof -
  from build_pages_events [of sk pid ps d w] obtain evs where
    e: "trace (build_pages sk pid ps d w) = trace w @ evs" "page_walk ps (attempted_pages evs) (failed evs)"
    by blast
  from new_events_append [OF e(1)] e(2) show ?thesis by simp
qed

lemma create_issues_new_events:
  "issue_walk is (attempted_issues (new_events w (snd (create_issues pk d is ([], w)))))
                 (failed (new_events w (snd (create_issues pk d is ([], w))))) \<and>
   report_ok (fst (create_issues pk d is ([], w))) (new_events w (snd (create_issues pk d is ([], w))))"
proof -
  from create_issues_events [of pk d "is" "[]" w] obtain new evs w' where
    e: "create_issues pk d is ([], w) = ([] @ new, w')" "trace w' = trace w @ evs"
       "issue_walk is (attempted_issues evs) (failed evs)" "report_ok new evs"
    by blast
  from e(1) have "snd (create_issues pk d is ([], w)) = w'" "fst (create_issues pk d is ([], w)) = new"
    by simp_all
  with new_events_append [OF e(2)] e(3,4) show ?thesis by simp
qed

text \<open>
  C8. The pages are attempted in an order that is a subsequence of the pre-order listing of
  the forest; the entries of the array returned by \<open>createIssueTree\<close> carry the keys of the
  \<open>Issue created\<close> lines, in order, and the summaries of these lines are a subsequence of
  the pre-order listing of the issue forest. So a node comes before its children, and a
  node's subtree before its next sibling.
\<close>

theorem report_in_preorder:
  "subseq (attempted_pages (new_events w (buildPageTree sk pid pages d w)))
          (concat (map page_titles pages)) \<and>
   map (\<lambda>r. get_prop r ''key'') (fst (createIssueTree pk issues d w)) =
     map fst (created_issues (new_events w (snd (createIssueTree pk issues d w)))) \<and>
   subseq (map snd (created_issues (new_events w (snd (createIssueTree pk issues d w)))))
          (concat (map issue_summaries issues))"
proof -
  let ?evs = "new_events w (snd (createIssueTree pk issues d w))"
  have 1: "subseq (attempted_pages (new_events w (buildPageTree sk pid pages d w)))
          (concat (map page_titles pages))"
    using build_pages_new_events [of pages w sk pid "case d of None \<Rightarrow> 300 | Some x \<Rightarrow> x"]
    unfolding page_walk_def buildPageTree_def by blast
  note c = create_issues_new_events [of issues w pk "case d of None \<Rightarrow> 200 | Some x \<Rightarrow> x"]
  have 2: "map (\<lambda>r. get_prop r ''key'') (fst (createIssueTree pk issues d w)) = map fst (created_issues ?evs)"
    using c unfolding createIssueTree_def report_ok_def by blast
  have "subseq (attempted_issues ?evs) (concat (map issue_summaries issues))"
    using c unfolding createIssueTree_def issue_walk_def by blast
  with created_subseq_attempted [of ?evs]
  have 3: "subseq (map snd (created_issues ?evs)) (concat (map issue_summaries issues))"
    by (rule subseq_order.trans)
  from 1 2 3 show ?thesis by blast
qed

subsection \<open>The end-to-end scenarios\<close>

lemma createIssue_eval:
  assumes "cached w = Some c" and "effective_domain no_opts c \<noteq> []"
    and "effective_auth no_opts c \<noteq> []" and "effective_auth no_opts c \<noteq> ''Og==''"
    and "\<not> answers_status w (cursor w) 429"
  shows "createIssue pk ty s desc io w =
     (case script w (cursor w) of
        Failure m \<Rightarrow>
          (Inl (NetError m),
           w\<lparr>cursor := Suc (cursor w), trace := trace w @ [Sent (issue_request pk ty s desc io c)]\<rparr>)
      | Answer res \<Rightarrow>
          if is_2xx res then
            (if payload_of res = JNull then
               (Inl (TypeError ''Cannot read properties of null (reading 'key')''),
                w\<lparr>cursor := Suc (cursor w), trace := trace w @ [Sent (issue_request pk ty s desc io c)]\<rparr>)
             else
               (Inr (payload_of res),
                w\<lparr>cursor := Suc (cursor w),
                  trace := trace w @ [Sent (issue_request pk ty s desc io c),
                                      Log (IssueCreated (get_prop (payload_of res) ''key'') s)]\<rparr>))
          else
            (Inl (HttpError (statusCode res) (data res)),
             w\<lparr>cursor := Suc (cursor w), trace := trace w @ [Sent (issue_request pk ty s desc io c)]\<rparr>))"
  using assms(5) atlassianRequest_step [OF assms(1-4), of "''POST''" "API_V3 @ ''/issue''"
      "Some (JObj [(''fields'', JObj (issue_fields pk ty s desc io))])"]
  by (auto simp: createIssue_def issue_request_def answers_status_def emit_def Let_def
           split: exchange.splits)

lemma createPage_eval:
  assumes "cached w = Some c" and "effective_domain no_opts c \<noteq> []"
    and "effective_auth no_opts c \<noteq> []" and "effective_auth no_opts c \<noteq> ''Og==''"
    and "\<not> answers_status w (cursor w) 429"
  shows "createPage sk title body pid [] w =
     (let parent = (case pid of None \<Rightarrow> None | Some v \<Rightarrow> if truthy v then Some v else None);
          sent = w\<lparr>cursor := Suc (cursor w),
                    trace := trace w @ [Log (CreatingPage title parent),
                                        Sent (page_request sk title body parent c)]\<rparr>
      in case script w (cursor w) of
           Failure m \<Rightarrow> (Inl (NetError m), sent)
         | Answer res \<Rightarrow>
             if is_2xx res then
               (if payload_of res = JNull then
                  (Inl (TypeError ''Cannot read properties of null (reading 'id')''), sent)
                else
                  (Inr (payload_of res),
                   emit [Log (PageCreated (get_prop (payload_of res) ''id''))] sent))
             else (Inl (HttpError (statusCode res) (data res)), sent))"
proof -
  let ?parent = "case pid of None \<Rightarrow> None | Some v \<Rightarrow> if truthy v then Some v else None"
  let ?w0 = "emit [Log (CreatingPage title ?parent)] w"
  have c0: "cached ?w0 = Some c" using assms(1) by simp
  have p: "(case pid of None \<Rightarrow> []
            | Some v \<Rightarrow> if truthy v then [(''ancestors'', JArr [JObj [(''id'', v)]])] else []) =
           (case ?parent of None \<Rightarrow> [] | Some v \<Rightarrow> [(''ancestors'', JArr [JObj [(''id'', v)]])])"
    by (cases pid) auto
  show ?thesis
    using assms(5) atlassianRequest_step [OF c0 assms(2-4), of "''POST''" "API @ ''/content''"]
    unfolding createPage_def p
    by (auto simp: page_request_def answers_status_def emit_def Let_def split: exchange.splits)
qed

lemma new_events_demo [simp]: "new_events (demo_loaded a) w' = trace w'"
  by (simp add: new_events_def)

lemma scenario_A_pages:
  "buildPageTree ''ENG'' (Some (JStr ''100'')) [page_A] (Some 0) (demo_loaded always_500) =
     (demo_loaded always_500)
       \<lparr>cursor := Suc 0,
         trace := [Log (CreatingPage ''A'' (Some (JStr ''100''))),
                   Sent (page_request ''ENG'' ''A'' ''<p>a</p>'' (Some (JStr ''100'')) demo_config),
                   Log (ErrorCreating ''A'' (message (HttpError 500 (units ''boom''))))]\<rparr>"
  by (simp add: buildPageTree_def page_A_def createPage_eval [where c = demo_config] demo_valid
        answers_status_def always_500_def emit_def Let_def del: message.simps)

lemma scenario_A_issues:
  "createIssueTree ''ACME'' [issue_A] (Some 0) (demo_loaded always_500) =
     ([], (demo_loaded always_500)
       \<lparr>cursor := Suc 0,
         trace := [Sent (issue_request ''ACME'' ''Story'' ''A'' (JStr [])
                      \<lparr> io_priority = None, io_labels = None, io_components = None, io_parentKey = None,
                        io_assigneeId = None, io_storyPoints = None, io_fields = None \<rparr> demo_config),
                   Log (ErrorCreating ''A'' (message (HttpError 500 (units ''boom''))))]\<rparr>)"
  by (simp add: createIssueTree_def issue_A_def createIssue_eval [where c = demo_config] demo_valid
        answers_status_def always_500_def emit_def Let_def description_or_empty_def
        del: message.simps)

text \<open>
  The second end-to-end scenario: B is created with id 1, then its child B1 with id 2, and
  the request for B1 names the page with id 1 as its ancestor.
\<close>

lemma scenario_B_pages:
  "new_events (demo_loaded ids_1_2) (buildPageTree ''ENG'' None [page_B] (Some 0) (demo_loaded ids_1_2)) =
     [Log (CreatingPage ''B'' None),
      Sent (page_request ''ENG'' ''B'' ''<p>b</p>'' None demo_config),
      Log (PageCreated (Some (JStr ''1''))),
      Log (CreatingPage ''B1'' (Some (JStr ''1''))),
      Sent (page_request ''ENG'' ''B1'' ''<p>b1</p>'' (Some (JStr ''1'')) demo_config),
      Log (PageCreated (Some (JStr ''2'')))]"
  by (simp add: buildPageTree_def page_B_def createPage_eval [where c = demo_config] demo_valid
        answers_status_def ids_1_2_def emit_def pause_def Let_def)

text \<open>
  C4 as stated fails: the root A is attempted and fails, and the array returned by
  \<open>createIssueTree\<close> is empty; the failure is on the console only.
\<close>

theorem failed_node_unreported_counterexample:
  "fst (createIssueTree ''ACME'' [issue_A] (Some 0) (demo_loaded always_500)) = [] \<and>
   failed (new_events (demo_loaded always_500)
     (snd (createIssueTree ''ACME'' [issue_A] (Some 0) (demo_loaded always_500)))) = [''A'']"
  unfolding scenario_A_issues by simp

lemma first_run:
  "createIssueTree ''ACME'' [leaf_issue ''A''] (Some 0) (demo_loaded once_then_conflict) =
     ([created_issue], (demo_loaded once_then_conflict)
       \<lparr>cursor := Suc 0,
         trace := [Sent (issue_request ''ACME'' ''Story'' ''A'' (JStr [])
                      \<lparr> io_priority = None, io_labels = None, io_components = None, io_parentKey = None,
                        io_assigneeId = None, io_storyPoints = None, io_fields = None \<rparr> demo_config),
                   Log (IssueCreated (Some (JStr ''ACME-1'')) ''A'')]\<rparr>)"
  by (simp add: createIssueTree_def leaf_issue_def createIssue_eval [where c = demo_config] demo_valid
        answers_status_def once_then_conflict_def emit_def Let_def description_or_empty_def
        created_issue_def pause_def del: message.simps)

text \<open>
  C5 as stated fails: the first run creates A as ACME-1; on the second run the backend
  answers the create with 409, the provisioner sends no fetch, and the array returned is
  empty.
\<close>

theorem second_run_counterexample:
  "fst (createIssueTree ''ACME'' [leaf_issue ''A''] (Some 0) (demo_loaded once_then_conflict)) = [created_issue] \<and>
   fst (createIssueTree ''ACME'' [leaf_issue ''A''] (Some 0)
          (snd (createIssueTree ''ACME'' [leaf_issue ''A''] (Some 0) (demo_loaded once_then_conflict)))) = [] \<and>
   map req_method (requests (trace (snd (createIssueTree ''ACME'' [leaf_issue ''A''] (Some 0)
          (snd (createIssueTree ''ACME'' [leaf_issue ''A''] (Some 0) (demo_loaded once_then_conflict)))))))
     = [''POST'', ''POST'']"
  unfolding first_run
  by (simp add: createIssueTree_def leaf_issue_def createIssue_eval [where c = demo_config] demo_valid
        answers_status_def once_then_conflict_def emit_def Let_def description_or_empty_def
        issue_request_def request_options_def del: message.simps)

subsection \<open>Conflicts on a second run\<close>

lemma createIssue_loaded:
  assumes "loadConfig None w = (Inr c, w0)"
  shows "createIssue pk ty s desc io w = createIssue pk ty s desc io w0"
  unfolding createIssue_def atlassianRequest_loaded [OF assms] ..

lemma create_issues_loaded:
  assumes "loadConfig None w = (Inr c, w0)" and "is \<noteq> []"
  shows "create_issues pk d is (created, w) = create_issues pk d is (created, w0)"
proof (cases "is")
  case Nil
  with assms(2) show ?thesis by simp
next
  case (Cons issue rest)
  show ?thesis
    unfolding Cons create_issues.simps createIssue_loaded [OF assms(1)] ..
qed

lemma create_issues_conflicts:
  assumes "cached w = Some c" and "effective_domain no_opts c \<noteq> []"
    and "effective_auth no_opts c \<noteq> []" and "effective_auth no_opts c \<noteq> ''Og==''"
    and "\<forall>n. answers_status w n 409"
  shows "\<exists>evs w'. create_issues pk d is (created, w) = (created, w') \<and> trace w' = trace w @ evs \<and>
           failed evs = map i_summary is \<and>
           map req_method (requests evs) = replicate (length is) ''POST'' \<and>
           map req_path (requests evs) = replicate (length is) ''/rest/api/3/issue''"
  using assms(1,5)
proof (induction "is" arbitrary: w)
  case Nil
  show ?case by (intro exI [of _ "[]"] exI [of _ w]) simp
next
  case (Cons issue rest)
  let ?io = "\<lparr> io_priority = i_priority issue, io_labels = i_labels issue,
               io_components = i_components issue, io_parentKey = None,
               io_assigneeId = None, io_storyPoints = None, io_fields = i_fields issue \<rparr>"
  let ?req = "issue_request pk (or_str (i_type issue) ''Story'') (i_summary issue)
                (description_or_empty (i_description issue)) ?io c"
  from Cons.prems(2) have "answers_status w (cursor w) 409" by blast
  then obtain res where res: "script w (cursor w) = Answer res" "statusCode res = 409"
    using answers_statusD by blast
  then have n: "\<not> answers_status w (cursor w) 429" "\<not> is_2xx res"
    by (simp_all add: answers_status_def is_2xx_def)
  let ?ev = "Log (ErrorCreating (i_summary issue) (message (HttpError (statusCode res) (data res))))"
  let ?w1 = "w\<lparr>cursor := Suc (cursor w), trace := trace w @ [Sent ?req]\<rparr>"
  have r: "createIssue pk (or_str (i_type issue) ''Story'') (i_summary issue)
             (description_or_empty (i_description issue)) ?io w =
           (Inl (HttpError (statusCode res) (data res)), ?w1)"
    using createIssue_eval [OF Cons.prems(1) assms(2-4) n(1)] res(1) n(2) by simp
  have c1: "cached (emit [?ev] ?w1) = Some c" using Cons.prems(1) by simp
  have a1: "\<forall>n. answers_status (emit [?ev] ?w1) n 409"
    using Cons.prems(2) by (simp add: answers_status_def)
  from Cons.IH [OF c1 a1] obtain evs w' where
    ih: "create_issues pk d rest (created, emit [?ev] ?w1) = (created, w')"
        "trace w' = trace (emit [?ev] ?w1) @ evs" "failed evs = map i_summary rest"
        "map req_method (requests evs) = replicate (length rest) ''POST''"
        "map req_path (requests evs) = replicate (length rest) ''/rest/api/3/issue''"
    by blast
  have 1: "create_issues pk d (issue # rest) (created, w) = (created, w')"
    using r ih(1) by (simp del: message.simps)
  have 2: "trace w' = trace w @ ([Sent ?req, ?ev] @ evs)" using ih(2) by simp
  have 3: "failed ([Sent ?req, ?ev] @ evs) = map i_summary (issue # rest)" using ih(3) by simp
  have 4: "map req_method (requests ([Sent ?req, ?ev] @ evs)) = replicate (length (issue # rest)) ''POST''"
    using ih(4) by (simp add: issue_request_def request_options_def)
  have 5: "map req_path (requests ([Sent ?req, ?ev] @ evs)) = replicate (length (issue # rest)) ''/rest/api/3/issue''"
    using ih(5) by (simp add: issue_request_def request_options_def API_V3_def)
  from 1 2 3 4 5 show ?case by blast
qed

text \<open>
  C5, amended. \<open>createIssueTree\<close> creates every node with a plain \<open>POST\<close> to
  \<open>/rest/api/3/issue\<close> and has no conflict recovery: when the backend answers every request
  with 409, as on a second run over existing natural keys, the run sends one \<open>POST\<close> per
  root and nothing else, returns the empty array and reports every root as failed.
\<close>

theorem conflicts_are_not_fetched:
  assumes "configured no_opts w" and "\<forall>n. answers_status w n 409"
  shows "fst (createIssueTree pk issues d w) = [] \<and>
         failed (new_events w (snd (createIssueTree pk issues d w))) = map i_summary issues \<and>
         map req_method (requests (new_events w (snd (createIssueTree pk issues d w)))) =
           replicate (length issues) ''POST'' \<and>
         map req_path (requests (new_events w (snd (createIssueTree pk issues d w)))) =
           replicate (length issues) ''/rest/api/3/issue''"
proof (cases "issues = []")
  case True
  then show ?thesis by (simp add: createIssueTree_def new_events_def)
next
  case False
  let ?d = "case d of None \<Rightarrow> 200 | Some x \<Rightarrow> x"
  let ?w0 = "snd (loadConfig None w)"
  from configuredD [OF assms(1)] obtain c where l: "loadConfig None w = (Inr c, ?w0)"
    and c: "cached ?w0 = Some c"
    and v: "effective_domain no_opts c \<noteq> []" "effective_auth no_opts c \<noteq> []"
           "effective_auth no_opts c \<noteq> ''Og==''"
    by blast
  have a: "\<forall>n. answers_status ?w0 n 409" using assms(2) by (simp add: answers_status_def)
  from create_issues_conflicts [OF c v a, of pk ?d issues "[]"] obtain evs w' where
    e: "create_issues pk ?d issues ([], ?w0) = ([], w')" "trace w' = trace ?w0 @ evs"
       "failed evs = map i_summary issues"
       "map req_method (requests evs) = replicate (length issues) ''POST''"
       "map req_path (requests evs) = replicate (length issues) ''/rest/api/3/issue''"
    by blast
  have r: "createIssueTree pk issues d w = ([], w')"
    unfolding createIssueTree_def create_issues_loaded [OF l False] e(1) ..
  have "trace w' = trace w @ evs" using e(2) by simp
  then have "new_events w w' = evs" by (rule new_events_append)
  with r e(3,4,5) show ?thesis by simp
qed

theorem conflicts_are_not_fetched_witness:
  "configured no_opts (demo_backend always_409) \<and>
   answers_status (demo_backend always_409) 0 409 \<and>
   fst (createIssueTree ''ACME'' [issue_A, issue_B] None (demo_backend always_409)) = [] \<and>
   failed (new_events (demo_backend always_409)
     (snd (createIssueTree ''ACME'' [issue_A, issue_B] None (demo_backend always_409)))) = [''A'', ''B''] \<and>
   map req_method (requests (new_events (demo_backend always_409)
     (snd (createIssueTree ''ACME'' [issue_A, issue_B] None (demo_backend always_409))))) = [''POST'', ''POST'']"
proof -
  have a: "\<forall>n. answers_status (demo_backend always_409) n 409"
    by (simp add: answers_status_def demo_backend_def always_409_def)
  from conflicts_are_not_fetched [OF demo_backend_configured a, of "''ACME''" "[issue_A, issue_B]" None]
  show ?thesis
    using a demo_backend_configured [of always_409]
    by (simp add: issue_A_def issue_B_def)
qed

subsection \<open>Configuration errors inside a walk\<close>

lemma loadConfig_again:
  "fst (loadConfig None w) = Inr c \<Longrightarrow> fst (loadConfig None (snd (loadConfig None w))) = Inr c"
  using loadConfig_stores [of None w c] loadConfig_hit [of "snd (loadConfig None w)" c None] by simp

lemma atlassianRequest_unconfigured:
  assumes "fst (loadConfig None w) = Inr c"
    and "effective_domain opts c = [] \<or> effective_auth opts c = [] \<or> effective_auth opts c = ''Og==''"
  shows "atlassianRequest m p b opts w = (Thrown (ConfigError (config_error opts c)), snd (loadConfig None w))"
proof -
  obtain w0 where l: "loadConfig None w = (Inr c, w0)" using assms(1) by (cases "loadConfig None w") auto
  show ?thesis
    using assms(2)
    by (subst atlassianRequest.simps)
       (auto simp: l config_error_def effective_domain_def effective_auth_def Let_def)
qed

lemma createIssue_unconfigured:
  assumes "fst (loadConfig None w) = Inr c"
    and "effective_domain no_opts c = [] \<or> effective_auth no_opts c = [] \<or> effective_auth no_opts c = ''Og==''"
  shows "createIssue pk ty s desc io w = (Inl (ConfigError (config_error no_opts c)), snd (loadConfig None w))"
  unfolding createIssue_def atlassianRequest_unconfigured [OF assms] by simp

lemma createPage_unconfigured:
  assumes "fst (loadConfig None w) = Inr c"
    and "effective_domain no_opts c = [] \<or> effective_auth no_opts c = [] \<or> effective_auth no_opts c = ''Og==''"
  shows "\<exists>parent. createPage sk title body pid ls w =
           (Inl (ConfigError (config_error no_opts c)),
            emit [Log (CreatingPage title parent)] (snd (loadConfig None w)))"
proof -
  let ?parent = "case pid of None \<Rightarrow> None | Some v \<Rightarrow> if truthy v then Some v else None"
  have "fst (loadConfig None (emit [Log (CreatingPage title ?parent)] w)) = Inr c"
    using assms(1) by (simp add: loadConfig_emit)
  from atlassianRequest_unconfigured [OF this assms(2)]
  have "createPage sk title body pid ls w =
           (Inl (ConfigError (config_error no_opts c)),
            emit [Log (CreatingPage title ?parent)] (snd (loadConfig None w)))"
    unfolding createPage_def by (simp add: loadConfig_emit Let_def)
  then show ?thesis by blast
qed

lemma create_issues_unconfigured:
  assumes "fst (loadConfig None w) = Inr c"
    and "effective_domain no_opts c = [] \<or> effective_auth no_opts c = [] \<or> effective_auth no_opts c = ''Og==''"
  shows "\<exists>w'. create_issues pk d is (created, w) = (created, w') \<and> cursor w' = cursor w \<and>
           trace w' = trace w @ map (\<lambda>i. Log (ErrorCreating (i_summary i) (config_error no_opts c))) is"
  using assms(1)
proof (induction "is" arbitrary: w)
  case Nil
  show ?case by simp
next
  case (Cons issue rest)
  let ?ev = "Log (ErrorCreating (i_summary issue) (config_error no_opts c))"
  let ?w1 = "emit [?ev] (snd (loadConfig None w))"
  have "fst (loadConfig None ?w1) = Inr c"
    using loadConfig_again [OF Cons.prems] by (simp add: loadConfig_emit)
  from Cons.IH [OF this] obtain w' where
    ih: "create_issues pk d rest (created, ?w1) = (created, w')" "cursor w' = cursor ?w1"
        "trace w' = trace ?w1 @ map (\<lambda>i. Log (ErrorCreating (i_summary i) (config_error no_opts c))) rest"
    by blast
  have "create_issues pk d (issue # rest) (created, w) = (created, w')"
    using ih(1) by (simp add: createIssue_unconfigured [OF Cons.prems assms(2)])
  with ih(2,3) show ?case by simp
qed

lemma build_pages_unconfigured:
  assumes "fst (loadConfig None w) = Inr c"
    and "effective_domain no_opts c = [] \<or> effective_auth no_opts c = [] \<or> effective_auth no_opts c = ''Og==''"
  shows "\<exists>evs. trace (build_pages sk pid ps d w) = trace w @ evs \<and>
           cursor (build_pages sk pid ps d w) = cursor w \<and>
           failed evs = map p_title ps \<and> attempted_pages evs = map p_title ps \<and> requests evs = []"
  using assms(1)
proof (induction ps arbitrary: w)
  case Nil
  show ?case by simp
next
  case (Cons page rest)
  obtain title body labels children where p: "page = Page title body labels children" by (cases page)
  let ?ls = "case labels of None \<Rightarrow> [] | Some ls \<Rightarrow> ls"
  from createPage_unconfigured [OF Cons.prems assms(2), of sk title body pid ?ls] obtain parent where
    r: "createPage sk title body pid ?ls w =
          (Inl (ConfigError (config_error no_opts c)),
           emit [Log (CreatingPage title parent)] (snd (loadConfig None w)))"
    by blast
  let ?pre = "[Log (CreatingPage title parent), Log (ErrorCreating title (config_error no_opts c))]"
  let ?w1 = "emit [Log (ErrorCreating title (config_error no_opts c))]
               (emit [Log (CreatingPage title parent)] (snd (loadConfig None w)))"
  have "fst (loadConfig None ?w1) = Inr c"
    using loadConfig_again [OF Cons.prems] by (simp add: loadConfig_emit)
  from Cons.IH [OF this] obtain evs where
    ih: "trace (build_pages sk pid rest d ?w1) = trace ?w1 @ evs"
        "cursor (build_pages sk pid rest d ?w1) = cursor ?w1"
        "failed evs = map p_title rest" "attempted_pages evs = map p_title rest" "requests evs = []"
    by blast
  have e: "build_pages sk pid (page # rest) d w = build_pages sk pid rest d ?w1"
    unfolding p by (simp add: r)
  have "trace (build_pages sk pid (page # rest) d w) = trace w @ (?pre @ evs)"
    unfolding e using ih(1) by simp
  moreover have "cursor (build_pages sk pid (page # rest) d w) = cursor w"
    unfolding e using ih(2) by simp
  moreover have "failed (?pre @ evs) = map p_title (page # rest)"
    "attempted_pages (?pre @ evs) = map p_title (page # rest)" "requests (?pre @ evs) = []"
    using ih(3,4,5) p by simp_all
  ultimately show ?case by blast
qed

text \<open>
  C9, amended. When the configuration loads but the domain is empty, or the credential is
  empty or is \<open>Og==\<close> (the encoding of an empty email and token), \<open>atlassianRequest\<close> throws
  the configuration error before the promise is made: nothing is added to the trace and the
  backend is not reached. The provisioners catch that error as they catch any other:
  \<open>createIssueTree\<close> logs every root as failed and returns the empty array,
  \<open>buildPageTree\<close> logs every root page as failed, and neither sends a request.
\<close>

theorem config_error_thrown_then_caught:
  assumes "fst (loadConfig None w) = Inr c"
  shows "((effective_domain opts c = [] \<or> effective_auth opts c = [] \<or> effective_auth opts c = ''Og=='') \<longrightarrow>
            fst (atlassianRequest m p b opts w) = Thrown (ConfigError (config_error opts c)) \<and>
            new_events w (snd (atlassianRequest m p b opts w)) = [] \<and>
            cursor (snd (atlassianRequest m p b opts w)) = cursor w) \<and>
         ((effective_domain no_opts c = [] \<or> effective_auth no_opts c = [] \<or>
           effective_auth no_opts c = ''Og=='') \<longrightarrow>
            fst (createIssueTree pk issues d w) = [] \<and>
            new_events w (snd (createIssueTree pk issues d w)) =
              map (\<lambda>i. Log (ErrorCreating (i_summary i) (config_error no_opts c))) issues \<and>
            cursor (snd (createIssueTree pk issues d w)) = cursor w \<and>
            failed (new_events w (buildPageTree sk pid pages dp w)) = map p_title pages \<and>
            requests (new_events w (buildPageTree sk pid pages dp w)) = [] \<and>
            cursor (buildPageTree sk pid pages dp w) = cursor w)"
proof (rule conjI, goal_cases)
  case 1
  show ?case
  proof
    assume "effective_domain opts c = [] \<or> effective_auth opts c = [] \<or> effective_auth opts c = ''Og==''"
    from atlassianRequest_unconfigured [OF assms this, of m p b] show
      "fst (atlassianRequest m p b opts w) = Thrown (ConfigError (config_error opts c)) \<and>
       new_events w (snd (atlassianRequest m p b opts w)) = [] \<and>
       cursor (snd (atlassianRequest m p b opts w)) = cursor w"
      by (simp add: new_events_def)
  qed
next
  case 2
  show ?case
  proof
    assume b: "effective_domain no_opts c = [] \<or> effective_auth no_opts c = [] \<or>
               effective_auth no_opts c = ''Og==''"
    from create_issues_unconfigured [OF assms b, of pk "case d of None \<Rightarrow> 200 | Some x \<Rightarrow> x" issues "[]"]
    obtain w' where i: "createIssueTree pk issues d w = ([], w')" "cursor w' = cursor w"
      "trace w' = trace w @ map (\<lambda>i. Log (ErrorCreating (i_summary i) (config_error no_opts c))) issues"
      unfolding createIssueTree_def by blast
    from build_pages_unconfigured [OF assms b, of sk pid pages "case dp of None \<Rightarrow> 300 | Some x \<Rightarrow> x"]
    obtain evs where g: "trace (buildPageTree sk pid pages dp w) = trace w @ evs"
      "cursor (buildPageTree sk pid pages dp w) = cursor w" "failed evs = map p_title pages"
      "requests evs = []"
      unfolding buildPageTree_def by blast
    show "fst (createIssueTree pk issues d w) = [] \<and>
            new_events w (snd (createIssueTree pk issues d w)) =
              map (\<lambda>i. Log (ErrorCreating (i_summary i) (config_error no_opts c))) issues \<and>
            cursor (snd (createIssueTree pk issues d w)) = cursor w \<and>
            failed (new_events w (buildPageTree sk pid pages dp w)) = map p_title pages \<and>
            requests (new_events w (buildPageTree sk pid pages dp w)) = [] \<and>
            cursor (buildPageTree sk pid pages dp w) = cursor w"
      using i g new_events_append [OF i(3)] new_events_append [OF g(1)] by simp
  qed
qed

lemma demo_unconfigured_loads: "fst (loadConfig None demo_unconfigured) = Inr demo_config_no_domain"
  by (simp add: loadConfig_def demo_unconfigured_def demo_world_def demo_files_def default_env_path_def
      Let_def make_config_def get_def parse_env_def env_line_def trim_def is_ws_def
      demo_config_no_domain_def parseInt_def is_digit_def digit_val_def)

lemma demo_no_domain: "effective_domain no_opts demo_config_no_domain = []"
  by (simp add: effective_domain_def no_opts_def demo_config_no_domain_def)

theorem config_error_thrown_then_caught_witness:
  "fst (loadConfig None demo_unconfigured) = Inr demo_config_no_domain \<and>
   effective_domain no_opts demo_config_no_domain = [] \<and>
   fst (atlassianRequest ''GET'' ''/rest/api/3/myself'' None no_opts demo_unconfigured) =
     Thrown (ConfigError ''ATLASSIAN_DOMAIN not set. Configure in .env or environment.'') \<and>
   cursor (snd (atlassianRequest ''GET'' ''/rest/api/3/myself'' None no_opts demo_unconfigured)) = 0 \<and>
   failed (new_events demo_unconfigured
     (buildPageTree ''ENG'' None [page_A, page_B] None demo_unconfigured)) = [''A'', ''B'']"
proof -
  note t = config_error_thrown_then_caught [OF demo_unconfigured_loads, where opts = no_opts
      and m = "''GET''" and p = "''/rest/api/3/myself''" and b = None and sk = "''ENG''" and pid = None
      and pages = "[page_A, page_B]" and dp = None]
  have c: "cursor demo_unconfigured = 0" by (simp add: demo_unconfigured_def demo_world_def)
  have e: "config_error no_opts demo_config_no_domain =
           ''ATLASSIAN_DOMAIN not set. Configure in .env or environment.''"
    by (simp add: config_error_def demo_no_domain)
  from t demo_no_domain demo_unconfigured_loads c e show ?thesis
    by (simp add: page_A_def page_B_def)
qed

text \<open>
  C9 as stated fails in its second half: without \<open>ATLASSIAN_DOMAIN\<close> the error thrown for
  A is caught by \<open>createIssueTree\<close> and logged, the walk goes on to B, and the call returns
  the empty array.
\<close>

theorem config_error_caught_counterexample:
  "fst (createIssueTree ''ACME'' [leaf_issue ''A'', leaf_issue ''B''] None demo_unconfigured) = [] \<and>
   new_events demo_unconfigured
     (snd (createIssueTree ''ACME'' [leaf_issue ''A'', leaf_issue ''B''] None demo_unconfigured)) =
     [Log (ErrorCreating ''A'' ''ATLASSIAN_DOMAIN not set. Configure in .env or environment.''),
      Log (ErrorCreating ''B'' ''ATLASSIAN_DOMAIN not set. Configure in .env or environment.'')]"
proof -
  have b: "effective_domain no_opts demo_config_no_domain = [] \<or>
           effective_auth no_opts demo_config_no_domain = [] \<or>
           effective_auth no_opts demo_config_no_domain = ''Og==''"
    using demo_no_domain by simp
  have e: "config_error no_opts demo_config_no_domain =
           ''ATLASSIAN_DOMAIN not set. Configure in .env or environment.''"
    by (simp add: config_error_def demo_no_domain)
  from create_issues_unconfigured [OF demo_unconfigured_loads b, of "''ACME''" 200
         "[leaf_issue ''A'', leaf_issue ''B'']" "[]"]
  obtain w' where i: "createIssueTree ''ACME'' [leaf_issue ''A'', leaf_issue ''B''] None demo_unconfigured = ([], w')"
    "trace w' = trace demo_unconfigured @
       map (\<lambda>i. Log (ErrorCreating (i_summary i) (config_error no_opts demo_config_no_domain)))
         [leaf_issue ''A'', leaf_issue ''B'']"
    unfolding createIssueTree_def by auto
  from new_events_append [OF i(2)] i(1) e show ?thesis
    by (simp add: leaf_issue_def)
qed

lemma failed_page_children_ignored:
  assumes "fst (createPage sk (p_title p) (p_body p) pid (case p_labels p of None \<Rightarrow> [] | Some ls \<Rightarrow> ls) w) = Inl e"
  shows "buildPageTree sk pid (p # rest) d w = buildPageTree sk pid (childless p # rest) d w"
proof -
  obtain title body labels children where p: "p = Page title body labels children" by (cases p)
  obtain w1 where "createPage sk title body pid (case labels of None \<Rightarrow> [] | Some ls \<Rightarrow> ls) w = (Inl e, w1)"
    using assms unfolding p by (cases "createPage sk title body pid (case labels of None \<Rightarrow> [] | Some ls \<Rightarrow> ls) w") auto
  then show ?thesis
    unfolding p by (simp add: buildPageTree_def childless_def)
qed

lemma failed_issue_children_ignored:
  assumes "fst (createIssue pk (or_str (i_type i) ''Story'') (i_summary i)
             (description_or_empty (i_description i))
             \<lparr> io_priority = i_priority i, io_labels = i_labels i,
               io_components = i_components i, io_parentKey = None,
               io_assigneeId = None, io_storyPoints = None, io_fields = i_fields i \<rparr> w) = Inl e"
  shows "createIssueTree pk (i # rest) d w = createIssueTree pk (without_children i # rest) d w"
proof -
  let ?r = "createIssue pk (or_str (i_type i) ''Story'') (i_summary i)
             (description_or_empty (i_description i))
             \<lparr> io_priority = i_priority i, io_labels = i_labels i,
               io_components = i_components i, io_parentKey = None,
               io_assigneeId = None, io_storyPoints = None, io_fields = i_fields i \<rparr> w"
  obtain w1 where "?r = (Inl e, w1)" using assms by (cases ?r) auto
  then show ?thesis
    by (simp add: createIssueTree_def without_children_def)
qed

lemma create_children_flat:
  "create_children pk result d (map without_children cs) cw = create_children pk result d cs cw"
proof (induction cs arbitrary: cw)
  case Nil
  show ?case by simp
next
  case (Cons c cs)
  obtain created w where cw: "cw = (created, w)" by (cases cw)
  show ?case
    unfolding cw using Cons.IH
    by (simp add: without_children_def split: prod.splits sum.splits)
qed

lemma create_issues_two_levels:
  "create_issues pk d (map two_levels is) cw = create_issues pk d is cw"
proof (induction "is" arbitrary: cw)
  case Nil
  show ?case by simp
next
  case (Cons i rest)
  obtain created w where cw: "cw = (created, w)" by (cases cw)
  show ?case
    unfolding cw using Cons.IH
    by (simp add: two_levels_def create_children_flat split: prod.splits sum.splits)
qed

subsection \<open>Below a failed node\<close>

lemma failed_page_descendants:
  assumes "distinct (concat (map page_titles pages))" and "p \<in> set (concat (map page_nodes pages))"
    and "p_title p \<in> set (failed (new_events w (buildPageTree sk pid pages d w)))"
  shows "set (pages_below p) \<inter> set (attempted_pages (new_events w (buildPageTree sk pid pages d w))) = {}"
  using assms build_pages_new_events [of pages w sk pid "case d of None \<Rightarrow> 300 | Some x \<Rightarrow> x"]
  unfolding page_walk_def buildPageTree_def by blast

lemma failed_issue_descendants:
  assumes "distinct (concat (map issue_summaries issues))" and "i \<in> set (concat (map issue_nodes issues))"
    and "i_summary i \<in> set (failed (new_events w (snd (createIssueTree pk issues d w))))"
  shows "set (issues_below i) \<inter> set (attempted_issues (new_events w (snd (createIssueTree pk issues d w)))) = {} \<and>
         set (issues_below i) \<inter> snd ` set (created_issues (new_events w (snd (createIssueTree pk issues d w)))) = {}"
proof -
  let ?evs = "new_events w (snd (createIssueTree pk issues d w))"
  have s: "set (map snd (created_issues ?evs)) \<subseteq> set (attempted_issues ?evs)"
    using subseq_subset [OF created_subseq_attempted [of ?evs]] .
  have "issue_walk issues (attempted_issues ?evs) (failed ?evs)"
    using create_issues_new_events [of issues w pk "case d of None \<Rightarrow> 200 | Some x \<Rightarrow> x"]
    unfolding createIssueTree_def by blast
  with assms have a: "set (issues_below i) \<inter> set (attempted_issues ?evs) = {}"
    unfolding issue_walk_def by blast
  moreover from a s have "set (issues_below i) \<inter> snd ` set (created_issues ?evs) = {}"
    by auto
  ultimately show ?thesis by blast
qed

text \<open>
  C2. When the creation of a page or of a root issue fails, the run is the run on the forest
  with that node's children removed: they are not looked at. \<open>createIssueTree\<close> never looks
  below the children of a root, whatever happens to them. And read off the console, for
  forests whose titles (summaries) are pairwise distinct so that a line identifies its
  node: a page or issue reported as failed has no descendant, at any depth, whose creation
  is attempted, and for issues none that is logged as created. Read the other way round, a
  child is attempted only if its parent's creation did not fail.
\<close>

theorem failed_node_descendants_skipped:
  "(fst (createPage sk (p_title q) (p_body q) pid (case p_labels q of None \<Rightarrow> [] | Some ls \<Rightarrow> ls) w) = Inl e \<longrightarrow>
      buildPageTree sk pid (q # rest) d w = buildPageTree sk pid (childless q # rest) d w) \<and>
   (fst (createIssue pk (or_str (i_type j) ''Story'') (i_summary j)
           (description_or_empty (i_description j))
           \<lparr> io_priority = i_priority j, io_labels = i_labels j,
             io_components = i_components j, io_parentKey = None,
             io_assigneeId = None, io_storyPoints = None, io_fields = i_fields j \<rparr> w) = Inl e' \<longrightarrow>
      createIssueTree pk (j # others) d w = createIssueTree pk (without_children j # others) d w) \<and>
   createIssueTree pk issues d w = createIssueTree pk (map two_levels issues) d w \<and>
   (distinct (concat (map page_titles pages)) \<and> p \<in> set (concat (map page_nodes pages)) \<and>
    p_title p \<in> set (failed (new_events w (buildPageTree sk pid pages d w))) \<longrightarrow>
      set (pages_below p) \<inter> set (attempted_pages (new_events w (buildPageTree sk pid pages d w))) = {}) \<and>
   (distinct (concat (map issue_summaries issues)) \<and> i \<in> set (concat (map issue_nodes issues)) \<and>
    i_summary i \<in> set (failed (new_events w (snd (createIssueTree pk issues d w)))) \<longrightarrow>
      set (issues_below i) \<inter> set (attempted_issues (new_events w (snd (createIssueTree pk issues d w)))) = {} \<and>
      set (issues_below i) \<inter> snd ` set (created_issues (new_events w (snd (createIssueTree pk issues d w)))) = {})"
proof (intro conjI impI)
  assume "fst (createPage sk (p_title q) (p_body q) pid (case p_labels q of None \<Rightarrow> [] | Some ls \<Rightarrow> ls) w) = Inl e"
  then show "buildPageTree sk pid (q # rest) d w = buildPageTree sk pid (childless q # rest) d w"
    by (rule failed_page_children_ignored)
next
  assume "fst (createIssue pk (or_str (i_type j) ''Story'') (i_summary j)
           (description_or_empty (i_description j))
           \<lparr> io_priority = i_priority j, io_labels = i_labels j,
             io_components = i_components j, io_parentKey = None,
             io_assigneeId = None, io_storyPoints = None, io_fields = i_fields j \<rparr> w) = Inl e'"
  then show "createIssueTree pk (j # others) d w = createIssueTree pk (without_children j # others) d w"
    by (rule failed_issue_children_ignored)
next
  show "createIssueTree pk issues d w = createIssueTree pk (map two_levels issues) d w"
    by (simp add: createIssueTree_def create_issues_two_levels)
next
  assume "distinct (concat (map page_titles pages)) \<and> p \<in> set (concat (map page_nodes pages)) \<and>
    p_title p \<in> set (failed (new_events w (buildPageTree sk pid pages d w)))"
  then show "set (pages_below p) \<inter> set (attempted_pages (new_events w (buildPageTree sk pid pages d w))) = {}"
    using failed_page_descendants by blast
next
  assume h: "distinct (concat (map issue_summaries issues)) \<and> i \<in> set (concat (map issue_nodes issues)) \<and>
    i_summary i \<in> set (failed (new_events w (snd (createIssueTree pk issues d w))))"
  then show "set (issues_below i) \<inter> set (attempted_issues (new_events w (snd (createIssueTree pk issues d w)))) = {}"
    using failed_issue_descendants [of issues i w pk d] by blast
  from h show "set (issues_below i) \<inter> snd ` set (created_issues (new_events w (snd (createIssueTree pk issues d w)))) = {}"
    using failed_issue_descendants [of issues i w pk d] by blast
qed

text \<open>
  The first end-to-end scenario: A fails with status 500, its children A1 and A2 are never
  attempted, for a page tree and for an issue tree.
\<close>

theorem failed_node_descendants_skipped_witness:
  "fst (createPage ''ENG'' (p_title page_A) (p_body page_A) (Some (JStr ''100''))
          (case p_labels page_A of None \<Rightarrow> [] | Some ls \<Rightarrow> ls) (demo_loaded always_500)) =
     Inl (HttpError 500 (units ''boom'')) \<and>
   buildPageTree ''ENG'' (Some (JStr ''100'')) [page_A] (Some 0) (demo_loaded always_500) =
     buildPageTree ''ENG'' (Some (JStr ''100'')) [childless page_A] (Some 0) (demo_loaded always_500) \<and>
   createIssueTree ''ACME'' [issue_A] (Some 0) (demo_loaded always_500) =
     createIssueTree ''ACME'' [without_children issue_A] (Some 0) (demo_loaded always_500) \<and>
   distinct (concat (map page_titles [page_A])) \<and> page_A \<in> set (concat (map page_nodes [page_A])) \<and>
   p_title page_A \<in> set (failed (new_events (demo_loaded always_500)
      (buildPageTree ''ENG'' (Some (JStr ''100'')) [page_A] (Some 0) (demo_loaded always_500)))) \<and>
   pages_below page_A = [''A1'', ''A2''] \<and>
   set (pages_below page_A) \<inter> set (attempted_pages (new_events (demo_loaded always_500)
      (buildPageTree ''ENG'' (Some (JStr ''100'')) [page_A] (Some 0) (demo_loaded always_500)))) = {} \<and>
   distinct (concat (map issue_summaries [issue_A])) \<and> issue_A \<in> set (concat (map issue_nodes [issue_A])) \<and>
   i_summary issue_A \<in> set (failed (new_events (demo_loaded always_500)
      (snd (createIssueTree ''ACME'' [issue_A] (Some 0) (demo_loaded always_500))))) \<and>
   issues_below issue_A = [''A1'', ''A2''] \<and>
   set (issues_below issue_A) \<inter> set (attempted_issues (new_events (demo_loaded always_500)
      (snd (createIssueTree ''ACME'' [issue_A] (Some 0) (demo_loaded always_500))))) = {}"
proof -
  have g1: "fst (createPage ''ENG'' (p_title page_A) (p_body page_A) (Some (JStr ''100''))
          (case p_labels page_A of None \<Rightarrow> [] | Some ls \<Rightarrow> ls) (demo_loaded always_500)) =
     Inl (HttpError 500 (units ''boom''))"
    by (simp add: page_A_def createPage_eval [where c = demo_config] demo_valid
          answers_status_def always_500_def Let_def)
  have g2: "fst (createIssue ''ACME'' (or_str (i_type issue_A) ''Story'') (i_summary issue_A)
           (description_or_empty (i_description issue_A))
           \<lparr> io_priority = i_priority issue_A, io_labels = i_labels issue_A,
             io_components = i_components issue_A, io_parentKey = None,
             io_assigneeId = None, io_storyPoints = None, io_fields = i_fields issue_A \<rparr>
           (demo_loaded always_500)) = Inl (HttpError 500 (units ''boom''))"
    by (simp add: issue_A_def createIssue_eval [where c = demo_config] demo_valid
          answers_status_def always_500_def Let_def)
  have h1: "distinct (concat (map page_titles [page_A])) \<and> page_A \<in> set (concat (map page_nodes [page_A])) \<and>
     p_title page_A \<in> set (failed (new_events (demo_loaded always_500)
      (buildPageTree ''ENG'' (Some (JStr ''100'')) [page_A] (Some 0) (demo_loaded always_500))))"
    unfolding scenario_A_pages by (simp add: page_A_def)
  have h2: "distinct (concat (map issue_summaries [issue_A])) \<and> issue_A \<in> set (concat (map issue_nodes [issue_A])) \<and>
     i_summary issue_A \<in> set (failed (new_events (demo_loaded always_500)
      (snd (createIssueTree ''ACME'' [issue_A] (Some 0) (demo_loaded always_500)))))"
    unfolding scenario_A_issues by (simp add: issue_A_def leaf_issue_def)
  have b: "pages_below page_A = [''A1'', ''A2'']" "issues_below issue_A = [''A1'', ''A2'']"
    by (simp_all add: pages_below_def issues_below_def page_A_def issue_A_def leaf_issue_def)
  note t = failed_node_descendants_skipped [where pages = "[page_A]" and p = page_A
      and w = "demo_loaded always_500" and sk = "''ENG''" and pid = "Some (JStr ''100'')" and d = "Some 0"
      and issues = "[issue_A]" and i = issue_A and pk = "''ACME''" and q = page_A and rest = "[]"
      and j = issue_A and others = "[]" and e = "HttpError 500 (units ''boom'')" and e' = "HttpError 500 (units ''boom'')"]
  from t g1 g2 h1 h2 b show ?thesis by blast
qed

subsection \<open>What the array returned holds\<close>

lemma error_lines_simps [simp]:
  "error_lines [] = []" "error_lines (e # evs) = error_line e @ error_lines evs"
  "error_lines (xs @ ys) = error_lines xs @ error_lines ys"
  by (simp_all add: error_lines_def)

lemma entries_simps [simp]:
  "entries [] = []" "entries (x # xs) = entry (issue_result x) @ entries xs"
  "entries (xs @ ys) = entries xs @ entries ys"
  by (simp_all add: entries_def)

lemma complaints_simps [simp]:
  "complaints [] = []" "complaints (x # xs) = complaint (issue_result x) @ complaints xs"
  "complaints (xs @ ys) = complaints xs @ complaints ys"
  by (simp_all add: complaints_def)

lemma next_answers_0 [simp]: "next_answers w 0 = []"
  by (simp add: next_answers_def)

lemma next_answers_add:
  assumes "script w' = script w" and "cursor w' = cursor w + n"
  shows "next_answers w (n + m) = next_answers w n @ next_answers w' m"
proof -
  have "[cursor w..<cursor w + (n + m)] = [cursor w..<cursor w + n] @ [cursor w + n..<cursor w + n + m]"
    by (metis add.assoc le_add1 upt_add_eq_append)
  then show ?thesis using assms by (simp add: next_answers_def)
qed

lemma next_answers_Suc:
  assumes "script w' = script w" and "cursor w' = Suc (cursor w)"
  shows "next_answers w (Suc m) = script w (cursor w) # next_answers w' m"
  using next_answers_add [of w' w 1 m] assms by (simp add: next_answers_def)

text \<open>
  One call of \<open>createIssue\<close> under a loaded, valid configuration, when the answer is not a
  429: one request, and the answer decides between a result with its console line and an
  error.
\<close>

lemma createIssue_answer:
  assumes "cached w = Some c" and "effective_domain no_opts c \<noteq> []"
    and "effective_auth no_opts c \<noteq> []" and "effective_auth no_opts c \<noteq> ''Og==''"
    and "\<not> answers_status w (cursor w) 429"
  shows "createIssue pk ty s desc io w =
     (issue_result (script w (cursor w)),
      w\<lparr>cursor := Suc (cursor w),
        trace := trace w @ Sent (issue_request pk ty s desc io c) #
                 (case issue_result (script w (cursor w)) of
                    Inl e \<Rightarrow> []
                  | Inr v \<Rightarrow> [Log (IssueCreated (get_prop v ''key'') s)])\<rparr>)"
  unfolding createIssue_eval [OF assms]
  by (cases "script w (cursor w)") (simp_all add: issue_result_def)

lemma pause_fields [simp]:
  "cached (pause d w) = cached w" "script (pause d w) = script w" "cursor (pause d w) = cursor w"
  by (simp_all add: pause_def)

lemma pause_events: "\<exists>pe. pause d w = w\<lparr>trace := trace w @ pe\<rparr> \<and> requests pe = [] \<and> error_lines pe = []"
proof (cases "d > 0")
  case True
  then show ?thesis by (intro exI [of _ "[Timer (Num d)]"]) (simp add: pause_def emit_def)
next
  case False
  then show ?thesis by (intro exI [of _ "[]"]) (simp add: pause_def)
qed

lemma create_children_answers:
  assumes "cached w = Some c" and "effective_domain no_opts c \<noteq> []"
    and "effective_auth no_opts c \<noteq> []" and "effective_auth no_opts c \<noteq> ''Og==''"
    and "\<forall>i. \<not> answers_status w i 429"
  shows "\<exists>evs. create_children pk result d cs (created, w) =
           (created @ entries (next_answers w (length cs)),
            w\<lparr>cursor := cursor w + length cs, trace := trace w @ evs\<rparr>) \<and>
         length (requests evs) = length cs \<and>
         map snd (error_lines evs) = complaints (next_answers w (length cs))"
  using assms
proof (induction cs arbitrary: created w)
  case Nil
  show ?case by (intro exI [of _ "[]"]) simp
next
  case (Cons child rest)
  let ?io = "\<lparr> io_priority = i_priority child, io_labels = i_labels child,
               io_components = i_components child, io_parentKey = get_prop result ''key'',
               io_assigneeId = None, io_storyPoints = None, io_fields = i_fields child \<rparr>"
  let ?ty = "or_str (i_type child) ''Sub-task''"
  let ?desc = "description_or_empty (i_description child)"
  let ?x = "script w (cursor w)"
  let ?sent = "Sent (issue_request pk ?ty (i_summary child) ?desc ?io c)"
  from Cons.prems(5) have n: "\<not> answers_status w (cursor w) 429" by simp
  note ev = createIssue_answer [OF Cons.prems(1-4) n, of pk ?ty "i_summary child" ?desc ?io]
  show ?case
  proof (cases "issue_result ?x")
    case (Inr v)
    let ?w1 = "w\<lparr>cursor := Suc (cursor w),
                 trace := trace w @ [?sent, Log (IssueCreated (get_prop v ''key'') (i_summary child))]\<rparr>"
    from pause_events [of d ?w1] obtain pe where
      pe: "pause d ?w1 = ?w1\<lparr>trace := trace ?w1 @ pe\<rparr>" "requests pe = []" "error_lines pe = []" by blast
    let ?w2 = "pause d ?w1"
    have p: "cached ?w2 = Some c" "\<forall>i. \<not> answers_status ?w2 i 429"
      "script ?w2 = script w" "cursor ?w2 = Suc (cursor w)"
      using Cons.prems(1,5) by (simp_all add: answers_status_def)
    from Cons.IH [OF p(1) Cons.prems(2-4) p(2), of "created @ [v]"] obtain evs where
      ih: "create_children pk result d rest (created @ [v], ?w2) =
             ((created @ [v]) @ entries (next_answers ?w2 (length rest)),
              ?w2\<lparr>cursor := cursor ?w2 + length rest, trace := trace ?w2 @ evs\<rparr>)"
          "length (requests evs) = length rest"
          "map snd (error_lines evs) = complaints (next_answers ?w2 (length rest))"
      by blast
    let ?all = "[?sent, Log (IssueCreated (get_prop v ''key'') (i_summary child))] @ pe @ evs"
    have a: "next_answers w (length (child # rest)) = ?x # next_answers ?w2 (length rest)"
      using next_answers_Suc [OF p(3,4)] by simp
    have 1: "create_children pk result d (child # rest) (created, w) =
               (created @ entries (next_answers w (length (child # rest))),
                w\<lparr>cursor := cursor w + length (child # rest), trace := trace w @ ?all\<rparr>)"
      unfolding a using ev Inr ih(1) by (simp add: pe(1))
    have 2: "length (requests ?all) = length (child # rest)" using pe(2) ih(2) by simp
    have 3: "map snd (error_lines ?all) = complaints (next_answers w (length (child # rest)))"
      unfolding a using pe(3) ih(3) Inr by simp
    from 1 2 3 show ?thesis by blast
  next
    case (Inl e)
    let ?w1 = "w\<lparr>cursor := Suc (cursor w), trace := trace w @ [?sent]\<rparr>"
    let ?ev = "Log (ErrorCreatingChild (i_summary child) (message e))"
    let ?w2 = "emit [?ev] ?w1"
    have p: "cached ?w2 = Some c" "\<forall>i. \<not> answers_status ?w2 i 429"
      "script ?w2 = script w" "cursor ?w2 = Suc (cursor w)"
      using Cons.prems(1,5) by (simp_all add: answers_status_def)
    from Cons.IH [OF p(1) Cons.prems(2-4) p(2), of created] obtain evs where
      ih: "create_children pk result d rest (created, ?w2) =
             (created @ entries (next_answers ?w2 (length rest)),
              ?w2\<lparr>cursor := cursor ?w2 + length rest, trace := trace ?w2 @ evs\<rparr>)"
          "length (requests evs) = length rest"
          "map snd (error_lines evs) = complaints (next_answers ?w2 (length rest))"
      by blast
    let ?all = "[?sent, ?ev] @ evs"
    have a: "next_answers w (length (child # rest)) = ?x # next_answers ?w2 (length rest)"
      using next_answers_Suc [OF p(3,4)] by simp
    have 1: "create_children pk result d (child # rest) (created, w) =
               (created @ entries (next_answers w (length (child # rest))),
                w\<lparr>cursor := cursor w + length (child # rest), trace := trace w @ ?all\<rparr>)"
      unfolding a using ev Inl ih(1) by (simp add: emit_def)
    have 2: "length (requests ?all) = length (child # rest)" using ih(2) by simp
    have 3: "map snd (error_lines ?all) = complaints (next_answers w (length (child # rest)))"
      unfolding a using ih(3) Inl by simp
    from 1 2 3 show ?thesis by blast
  qed
qed

lemma create_issues_answers:
  assumes "cached w = Some c" and "effective_domain no_opts c \<noteq> []"
    and "effective_auth no_opts c \<noteq> []" and "effective_auth no_opts c \<noteq> ''Og==''"
    and "\<forall>i. \<not> answers_status w i 429"
  shows "\<exists>n evs. create_issues pk d is (created, w) =
           (created @ entries (next_answers w n),
            w\<lparr>cursor := cursor w + n, trace := trace w @ evs\<rparr>) \<and>
         length (requests evs) = n \<and>
         map snd (error_lines evs) = complaints (next_answers w n)"
  using assms
proof (induction "is" arbitrary: created w)
  case Nil
  show ?case by (intro exI [of _ 0] exI [of _ "[]"]) simp
next
  case (Cons issue rest)
  let ?io = "\<lparr> io_priority = i_priority issue, io_labels = i_labels issue,
               io_components = i_components issue, io_parentKey = None,
               io_assigneeId = None, io_storyPoints = None, io_fields = i_fields issue \<rparr>"
  let ?ty = "or_str (i_type issue) ''Story''"
  let ?desc = "description_or_empty (i_description issue)"
  let ?x = "script w (cursor w)"
  let ?sent = "Sent (issue_request pk ?ty (i_summary issue) ?desc ?io c)"
  from Cons.prems(5) have n: "\<not> answers_status w (cursor w) 429" by simp
  note ev = createIssue_answer [OF Cons.prems(1-4) n, of pk ?ty "i_summary issue" ?desc ?io]
  show ?case
  proof (cases "issue_result ?x")
    case (Inr v)
    let ?w1 = "w\<lparr>cursor := Suc (cursor w),
                 trace := trace w @ [?sent, Log (IssueCreated (get_prop v ''key'') (i_summary issue))]\<rparr>"
    from pause_events [of d ?w1] obtain pe where
      pe: "pause d ?w1 = ?w1\<lparr>trace := trace ?w1 @ pe\<rparr>" "requests pe = []" "error_lines pe = []" by blast
    let ?w2 = "pause d ?w1"
    let ?k = "length (i_children issue)"
    have p: "cached ?w2 = Some c" "\<forall>i. \<not> answers_status ?w2 i 429"
      "script ?w2 = script w" "cursor ?w2 = Suc (cursor w)"
      using Cons.prems(1,5) by (simp_all add: answers_status_def)
    let ?mid = "if i_children issue \<noteq> []
             then create_children pk v d (i_children issue) (created @ [v], ?w2)
             else (created @ [v], ?w2)"
    have "\<exists>ec. ?mid = ((created @ [v]) @ entries (next_answers ?w2 ?k),
                        ?w2\<lparr>cursor := cursor ?w2 + ?k, trace := trace ?w2 @ ec\<rparr>) \<and>
               length (requests ec) = ?k \<and> map snd (error_lines ec) = complaints (next_answers ?w2 ?k)"
    proof (cases "i_children issue = []")
      case True
      then show ?thesis by (intro exI [of _ "[]"]) simp
    next
      case False
      then show ?thesis
        using create_children_answers [OF p(1) Cons.prems(2-4) p(2), of pk v d "i_children issue" "created @ [v]"]
        by simp
    qed
    then obtain ec where
      m: "?mid = ((created @ [v]) @ entries (next_answers ?w2 ?k),
                  ?w2\<lparr>cursor := cursor ?w2 + ?k, trace := trace ?w2 @ ec\<rparr>)"
         "length (requests ec) = ?k" "map snd (error_lines ec) = complaints (next_answers ?w2 ?k)"
      by blast
    let ?w3 = "?w2\<lparr>cursor := cursor ?w2 + ?k, trace := trace ?w2 @ ec\<rparr>"
    have q: "cached ?w3 = Some c" "\<forall>i. \<not> answers_status ?w3 i 429"
      "script ?w3 = script ?w2" "cursor ?w3 = cursor ?w2 + ?k"
      using p(1,2) by (simp_all add: answers_status_def)
    from Cons.IH [OF q(1) Cons.prems(2-4) q(2), of "(created @ [v]) @ entries (next_answers ?w2 ?k)"]
    obtain n' evs where
      ih: "create_issues pk d rest ((created @ [v]) @ entries (next_answers ?w2 ?k), ?w3) =
             (((created @ [v]) @ entries (next_answers ?w2 ?k)) @ entries (next_answers ?w3 n'),
              ?w3\<lparr>cursor := cursor ?w3 + n', trace := trace ?w3 @ evs\<rparr>)"
          "length (requests evs) = n'"
          "map snd (error_lines evs) = complaints (next_answers ?w3 n')"
      by blast
    let ?n = "Suc (?k + n')"
    let ?all = "[?sent, Log (IssueCreated (get_prop v ''key'') (i_summary issue))] @ pe @ ec @ evs"
    have a: "next_answers w ?n = ?x # next_answers ?w2 ?k @ next_answers ?w3 n'"
      using next_answers_Suc [OF p(3,4), of "?k + n'"] next_answers_add [OF q(3,4), of n'] by simp
    have "create_issues pk d (issue # rest) (created, w) = create_issues pk d rest ?mid"
      using ev Inr by simp
    then have 1: "create_issues pk d (issue # rest) (created, w) =
               (created @ entries (next_answers w ?n),
                w\<lparr>cursor := cursor w + ?n, trace := trace w @ ?all\<rparr>)"
      unfolding a m(1) ih(1) using Inr by (simp add: pe(1))
    have 2: "length (requests ?all) = ?n" using pe(2) m(2) ih(2) by simp
    have 3: "map snd (error_lines ?all) = complaints (next_answers w ?n)"
      unfolding a using pe(3) m(3) ih(3) Inr by simp
    from 1 2 3 show ?thesis by blast
  next
    case (Inl e)
    let ?w1 = "w\<lparr>cursor := Suc (cursor w), trace := trace w @ [?sent]\<rparr>"
    let ?ev = "Log (ErrorCreating (i_summary issue) (message e))"
    let ?w2 = "emit [?ev] ?w1"
    have p: "cached ?w2 = Some c" "\<forall>i. \<not> answers_status ?w2 i 429"
      "script ?w2 = script w" "cursor ?w2 = Suc (cursor w)"
      using Cons.prems(1,5) by (simp_all add: answers_status_def)
    from Cons.IH [OF p(1) Cons.prems(2-4) p(2), of created] obtain n' evs where
      ih: "create_issues pk d rest (created, ?w2) =
             (created @ entries (next_answers ?w2 n'),
              ?w2\<lparr>cursor := cursor ?w2 + n', trace := trace ?w2 @ evs\<rparr>)"
          "length (requests evs) = n'"
          "map snd (error_lines evs) = complaints (next_answers ?w2 n')"
      by blast
    let ?all = "[?sent, ?ev] @ evs"
    have a: "next_answers w (Suc n') = ?x # next_answers ?w2 n'"
      using next_answers_Suc [OF p(3,4)] by simp
    have 1: "create_issues pk d (issue # rest) (created, w) =
               (created @ entries (next_answers w (Suc n')),
                w\<lparr>cursor := cursor w + Suc n', trace := trace w @ ?all\<rparr>)"
      unfolding a using ev Inl ih(1) by (simp add: emit_def)
    have 2: "length (requests ?all) = Suc n'" using ih(2) by simp
    have 3: "map snd (error_lines ?all) = complaints (next_answers w (Suc n'))"
      unfolding a using ih(3) Inl by simp
    from 1 2 3 show ?thesis by blast
  qed
qed

text \<open>Every root ends in a console line, whatever the world.\<close>

lemma create_issues_roots:
  "\<exists>evs. trace (snd (create_issues pk d is (created, w))) = trace w @ evs \<and>
         subseq (map i_summary is) (attempted_issues evs)"
proof (induction "is" arbitrary: created w)
  case Nil
  show ?case by (intro exI [of _ "[]"]) simp
next
  case (Cons issue rest)
  let ?io = "\<lparr> io_priority = i_priority issue, io_labels = i_labels issue,
               io_components = i_components issue, io_parentKey = None,
               io_assigneeId = None, io_storyPoints = None, io_fields = i_fields issue \<rparr>"
  let ?r = "createIssue pk (or_str (i_type issue) ''Story'') (i_summary issue)
             (description_or_empty (i_description issue)) ?io w"
  from createIssue_events [of pk "or_str (i_type issue) ''Story''" "i_summary issue"
         "description_or_empty (i_description issue)" ?io w]
  obtain ce where ce: "trace (snd ?r) = trace w @ ce" "failed ce = []"
    "case fst ?r of
       Inl e \<Rightarrow> created_issues ce = [] \<and> attempted_issues ce = []
     | Inr res \<Rightarrow> created_issues ce = [(get_prop res ''key'', i_summary issue)] \<and>
                  attempted_issues ce = [i_summary issue]"
    by blast
  obtain res w1 where r: "?r = (res, w1)" by (cases ?r) auto
  then have w1: "trace w1 = trace w @ ce" using ce(1) by simp
  show ?case
  proof (cases res)
    case (Inr result)
    with r ce(3) have c: "attempted_issues ce = [i_summary issue]" by simp
    from pause_trace [of d w1] obtain pe where
      pe: "trace (pause d w1) = trace w1 @ pe" "list_all transport pe" by blast
    let ?mid = "if i_children issue \<noteq> []
             then create_children pk result d (i_children issue) (created @ [result], pause d w1)
             else (created @ [result], pause d w1)"
    have "\<exists>ec. trace (snd ?mid) = trace (pause d w1) @ ec"
    proof (cases "i_children issue = []")
      case True
      then show ?thesis by simp
    next
      case False
      from create_children_events [of pk result d "i_children issue" "created @ [result]" "pause d w1"]
      obtain new evs w' where
        "create_children pk result d (i_children issue) (created @ [result], pause d w1) =
           ((created @ [result]) @ new, w')" "trace w' = trace (pause d w1) @ evs"
        by blast
      with False show ?thesis by (intro exI [of _ evs]) simp
    qed
    then obtain ec where m: "trace (snd ?mid) = trace (pause d w1) @ ec" by blast
    from Cons.IH [of "fst ?mid" "snd ?mid"] obtain evs where
      ih: "trace (snd (create_issues pk d rest (fst ?mid, snd ?mid))) = trace (snd ?mid) @ evs"
          "subseq (map i_summary rest) (attempted_issues evs)"
      by blast
    have "create_issues pk d (issue # rest) (created, w) = create_issues pk d rest (fst ?mid, snd ?mid)"
      using r Inr by simp
    then have 1: "trace (snd (create_issues pk d (issue # rest) (created, w))) = trace w @ (ce @ pe @ ec @ evs)"
      using ih(1) m pe(1) w1 by simp
    have "subseq (map i_summary rest) (attempted_issues (pe @ ec @ evs))"
      using ih(2) by (simp add: list_emb_append2)
    then have 2: "subseq (map i_summary (issue # rest)) (attempted_issues (ce @ pe @ ec @ evs))"
      using c by simp
    from 1 2 show ?thesis by blast
  next
    case (Inl e)
    let ?ev = "Log (ErrorCreating (i_summary issue) (message e))"
    from Cons.IH [of created "emit [?ev] w1"] obtain evs where
      ih: "trace (snd (create_issues pk d rest (created, emit [?ev] w1))) = trace (emit [?ev] w1) @ evs"
          "subseq (map i_summary rest) (attempted_issues evs)"
      by blast
    have "create_issues pk d (issue # rest) (created, w) = create_issues pk d rest (created, emit [?ev] w1)"
      using r Inl by simp
    then have 1: "trace (snd (create_issues pk d (issue # rest) (created, w))) = trace w @ (ce @ [?ev] @ evs)"
      using ih(1) w1 by simp
    have 2: "subseq (map i_summary (issue # rest)) (attempted_issues (ce @ [?ev] @ evs))"
      using ih(2) by (simp add: list_emb_append2)
    from 1 2 show ?thesis by blast
  qed
qed

lemma new_events_self [simp]: "new_events w w = []"
  by (simp add: new_events_def)

lemma createIssueTree_answers:
  assumes "configured no_opts w" and "\<forall>i. \<not> answers_status w i 429"
  shows "fst (createIssueTree pk issues d w) =
           entries (next_answers w (sent_by w (snd (createIssueTree pk issues d w)))) \<and>
         map snd (error_lines (new_events w (snd (createIssueTree pk issues d w)))) =
           complaints (next_answers w (sent_by w (snd (createIssueTree pk issues d w)))) \<and>
         cursor (snd (createIssueTree pk issues d w)) =
           cursor w + sent_by w (snd (createIssueTree pk issues d w))"
proof (cases "issues = []")
  case True
  then show ?thesis by (simp add: createIssueTree_def sent_by_def)
next
  case False
  let ?w0 = "snd (loadConfig None w)"
  let ?d = "case d of None \<Rightarrow> 200 | Some x \<Rightarrow> x"
  from configuredD [OF assms(1)] obtain c where
    c: "loadConfig None w = (Inr c, ?w0)" "cached ?w0 = Some c"
       "effective_domain no_opts c \<noteq> []" "effective_auth no_opts c \<noteq> []"
       "effective_auth no_opts c \<noteq> ''Og==''"
    by blast
  have k: "script ?w0 = script w" "cursor ?w0 = cursor w" "trace ?w0 = trace w" by simp_all
  have n: "\<forall>i. \<not> answers_status ?w0 i 429" using assms(2) by (simp add: answers_status_def)
  from create_issues_answers [OF c(2-5) n, of pk ?d issues "[]"] obtain m evs where
    e: "create_issues pk ?d issues ([], ?w0) =
          ([] @ entries (next_answers ?w0 m), ?w0\<lparr>cursor := cursor ?w0 + m, trace := trace ?w0 @ evs\<rparr>)"
       "length (requests evs) = m" "map snd (error_lines evs) = complaints (next_answers ?w0 m)"
    by blast
  have a: "next_answers ?w0 m = next_answers w m" by (simp add: next_answers_def)
  have r: "createIssueTree pk issues d w =
             (entries (next_answers w m), ?w0\<lparr>cursor := cursor w + m, trace := trace w @ evs\<rparr>)"
    unfolding createIssueTree_def create_issues_loaded [OF c(1) False] e(1) a k by simp
  have s: "sent_by w (snd (createIssueTree pk issues d w)) = m"
    unfolding r using e(2) by (simp add: sent_by_def new_events_def)
  show ?thesis
    unfolding s using e(3) a unfolding r by (simp add: new_events_def)
qed

lemma failed_issue_reported:
  assumes "createIssue pk (or_str (i_type i) ''Story'') (i_summary i)
             (description_or_empty (i_description i))
             \<lparr> io_priority = i_priority i, io_labels = i_labels i,
               io_components = i_components i, io_parentKey = None,
               io_assigneeId = None, io_storyPoints = None, io_fields = i_fields i \<rparr> w = (Inl e, w1)"
  shows "createIssueTree pk (i # rest) d w =
           createIssueTree pk rest d (emit [Log (ErrorCreating (i_summary i) (message e))] w1)"
  using assms by (simp add: createIssueTree_def)

lemma failed_page_reported:
  assumes "createPage sk (p_title p) (p_body p) pid (case p_labels p of None \<Rightarrow> [] | Some ls \<Rightarrow> ls) w
             = (Inl e, w1)"
  shows "buildPageTree sk pid (p # rest) d w =
           buildPageTree sk pid rest d (emit [Log (ErrorCreating (p_title p) (message e))] w1)"
  using assms by (cases p) (simp add: buildPageTree_def)

lemma failed_child_reported:
  assumes "createIssue pk (or_str (i_type child) ''Sub-task'') (i_summary child)
             (description_or_empty (i_description child))
             \<lparr> io_priority = i_priority child, io_labels = i_labels child,
               io_components = i_components child, io_parentKey = get_prop result ''key'',
               io_assigneeId = None, io_storyPoints = None, io_fields = i_fields child \<rparr> w = (Inl e, w1)"
  shows "create_children pk result d (child # rest) (created, w) =
           create_children pk result d rest
             (created, emit [Log (ErrorCreatingChild (i_summary child) (message e))] w1)"
  using assms by simp

lemma error_lines_failed: "map fst (error_lines evs) = failed evs"
proof (induction evs)
  case Nil
  show ?case by simp
next
  case (Cons ev evs)
  have "map fst (error_line ev) = failure_of ev"
    by (cases ev rule: error_line.cases) simp_all
  with Cons show ?case by simp
qed

lemma create_children_accounted:
  "attempted_issues (new_events y (snd (create_children pk parent dc cs (acc, y)))) = map i_summary cs \<and>
   length (fst (create_children pk parent dc cs (acc, y))) +
     length (error_lines (new_events y (snd (create_children pk parent dc cs (acc, y))))) =
     length acc + length cs"
proof -
  from create_children_events [of pk parent dc cs acc y] obtain new evs w' where
    e: "create_children pk parent dc cs (acc, y) = (acc @ new, w')" "trace w' = trace y @ evs"
       "attempted_issues evs = map i_summary cs" "report_ok new evs"
    by blast
  from e(1,2) have n: "new_events y (snd (create_children pk parent dc cs (acc, y))) = evs"
    using new_events_append by simp
  have "length (error_lines evs) = length (failed evs)"
    using error_lines_failed [of evs] by (metis length_map)
  moreover from e(3,4) have "length cs = length new + length (failed evs)"
    unfolding report_ok_def by (metis length_map)
  ultimately show ?thesis unfolding n using e(1,3) by simp
qed

lemma entry_or_complaint:
  "length (entries xs) + length (complaints xs) = length xs"
proof (induction xs)
  case Nil
  show ?case by simp
next
  case (Cons x xs)
  then show ?case by (cases "issue_result x") simp_all
qed

text \<open>
  C4, amended. The array \<open>createIssueTree\<close> returns holds the payloads of the issues
  created and nothing else; a failure is on the console only.

  A root whose \<open>createIssue\<close> call fails adds no entry: the run is the run on the roots
  after it, started after one line \<open>Error creating\<close> with the root's summary and the
  message of the error; the same holds for a child in the inner loop, and for a page in
  \<open>buildPageTree\<close>, which returns no value at all. The entries carry the keys of the
  \<open>Issue created\<close> lines, in order. Every root ends in a console line, \<open>Issue created\<close>
  or \<open>Error creating\<close>, the lines follow the pre-order of the forest, and in the inner
  loop every child ends in exactly one line, so that the entries added and the error lines
  are as many as the children.

  Under a valid configuration and a backend that never answers 429, each request sent is
  answered once and ends as exactly one entry or one error line: the entries are the
  payloads of the 2xx answers and the messages of the error lines are those of the other
  answers, both in the order of the answers. (A 2xx answer whose payload is null counts
  among the others: reading its key throws.)
\<close>

theorem report_lists_created_only:
  "(createIssue pk (or_str (i_type i) ''Story'') (i_summary i) (description_or_empty (i_description i))
      \<lparr> io_priority = i_priority i, io_labels = i_labels i, io_components = i_components i,
        io_parentKey = None, io_assigneeId = None, io_storyPoints = None, io_fields = i_fields i \<rparr> w
      = (Inl e, w1) \<longrightarrow>
    createIssueTree pk (i # rest) d w =
      createIssueTree pk rest d (emit [Log (ErrorCreating (i_summary i) (message e))] w1)) \<and>
   (createIssue pk (or_str (i_type c) ''Sub-task'') (i_summary c) (description_or_empty (i_description c))
      \<lparr> io_priority = i_priority c, io_labels = i_labels c, io_components = i_components c,
        io_parentKey = get_prop parent ''key'', io_assigneeId = None, io_storyPoints = None,
        io_fields = i_fields c \<rparr> x
      = (Inl g, x1) \<longrightarrow>
    create_children pk parent dc (c # siblings) (created, x) =
      create_children pk parent dc siblings
        (created, emit [Log (ErrorCreatingChild (i_summary c) (message g))] x1)) \<and>
   (createPage sk (p_title p) (p_body p) pid (case p_labels p of None \<Rightarrow> [] | Some ls \<Rightarrow> ls) v
      = (Inl f, v1) \<longrightarrow>
    buildPageTree sk pid (p # others) dp v =
      buildPageTree sk pid others dp (emit [Log (ErrorCreating (p_title p) (message f))] v1)) \<and>
   map (\<lambda>r. get_prop r ''key'') (fst (createIssueTree pk issues d u)) =
     map fst (created_issues (new_events u (snd (createIssueTree pk issues d u)))) \<and>
   subseq (map i_summary issues) (attempted_issues (new_events u (snd (createIssueTree pk issues d u)))) \<and>
   subseq (attempted_issues (new_events u (snd (createIssueTree pk issues d u))))
          (concat (map issue_summaries issues)) \<and>
   attempted_issues (new_events y (snd (create_children pk parent dc cs (acc, y)))) = map i_summary cs \<and>
   length (fst (create_children pk parent dc cs (acc, y))) +
     length (error_lines (new_events y (snd (create_children pk parent dc cs (acc, y))))) =
     length acc + length cs \<and>
   (configured no_opts u \<and> (\<forall>n. \<not> answers_status u n 429) \<longrightarrow>
      fst (createIssueTree pk issues d u) =
        entries (next_answers u (sent_by u (snd (createIssueTree pk issues d u)))) \<and>
      map snd (error_lines (new_events u (snd (createIssueTree pk issues d u)))) =
        complaints (next_answers u (sent_by u (snd (createIssueTree pk issues d u)))) \<and>
      length (fst (createIssueTree pk issues d u)) +
        length (error_lines (new_events u (snd (createIssueTree pk issues d u)))) =
        sent_by u (snd (createIssueTree pk issues d u)) \<and>
      cursor (snd (createIssueTree pk issues d u)) =
        cursor u + sent_by u (snd (createIssueTree pk issues d u)))"
proof (intro conjI impI)
  assume "createIssue pk (or_str (i_type i) ''Story'') (i_summary i) (description_or_empty (i_description i))
      \<lparr> io_priority = i_priority i, io_labels = i_labels i, io_components = i_components i,
        io_parentKey = None, io_assigneeId = None, io_storyPoints = None, io_fields = i_fields i \<rparr> w
      = (Inl e, w1)"
  then show "createIssueTree pk (i # rest) d w =
      createIssueTree pk rest d (emit [Log (ErrorCreating (i_summary i) (message e))] w1)"
    by (rule failed_issue_reported)
next
  assume "createIssue pk (or_str (i_type c) ''Sub-task'') (i_summary c) (description_or_empty (i_description c))
      \<lparr> io_priority = i_priority c, io_labels = i_labels c, io_components = i_components c,
        io_parentKey = get_prop parent ''key'', io_assigneeId = None, io_storyPoints = None,
        io_fields = i_fields c \<rparr> x
      = (Inl g, x1)"
  then show "create_children pk parent dc (c # siblings) (created, x) =
      create_children pk parent dc siblings
        (created, emit [Log (ErrorCreatingChild (i_summary c) (message g))] x1)"
    by (rule failed_child_reported)
next
  assume "createPage sk (p_title p) (p_body p) pid (case p_labels p of None \<Rightarrow> [] | Some ls \<Rightarrow> ls) v
      = (Inl f, v1)"
  then show "buildPageTree sk pid (p # others) dp v =
      buildPageTree sk pid others dp (emit [Log (ErrorCreating (p_title p) (message f))] v1)"
    by (rule failed_page_reported)
next
  show "map (\<lambda>r. get_prop r ''key'') (fst (createIssueTree pk issues d u)) =
     map fst (created_issues (new_events u (snd (createIssueTree pk issues d u))))"
    using create_issues_new_events [of issues u pk "case d of None \<Rightarrow> 200 | Some x \<Rightarrow> x"]
    unfolding createIssueTree_def report_ok_def by blast
next
  from create_issues_roots [of pk "case d of None \<Rightarrow> 200 | Some x \<Rightarrow> x" issues "[]" u]
  obtain evs where "trace (snd (createIssueTree pk issues d u)) = trace u @ evs"
    "subseq (map i_summary issues) (attempted_issues evs)"
    unfolding createIssueTree_def by blast
  then show "subseq (map i_summary issues)
               (attempted_issues (new_events u (snd (createIssueTree pk issues d u))))"
    using new_events_append by simp
next
  show "subseq (attempted_issues (new_events u (snd (createIssueTree pk issues d u))))
          (concat (map issue_summaries issues))"
    using create_issues_new_events [of issues u pk "case d of None \<Rightarrow> 200 | Some x \<Rightarrow> x"]
    unfolding createIssueTree_def issue_walk_def by blast
next
  show "attempted_issues (new_events y (snd (create_children pk parent dc cs (acc, y)))) = map i_summary cs"
    using create_children_accounted by blast
next
  show "length (fst (create_children pk parent dc cs (acc, y))) +
     length (error_lines (new_events y (snd (create_children pk parent dc cs (acc, y))))) =
     length acc + length cs"
    using create_children_accounted by blast
next
  assume h: "configured no_opts u \<and> (\<forall>n. \<not> answers_status u n 429)"
  note a = createIssueTree_answers [of u pk issues d]
  from h a show "fst (createIssueTree pk issues d u) =
        entries (next_answers u (sent_by u (snd (createIssueTree pk issues d u))))" by blast
  from h a show "map snd (error_lines (new_events u (snd (createIssueTree pk issues d u)))) =
        complaints (next_answers u (sent_by u (snd (createIssueTree pk issues d u))))" by blast
  from h a show "cursor (snd (createIssueTree pk issues d u)) =
        cursor u + sent_by u (snd (createIssueTree pk issues d u))" by blast
  from h a have "length (fst (createIssueTree pk issues d u)) +
        length (map snd (error_lines (new_events u (snd (createIssueTree pk issues d u))))) =
        length (next_answers u (sent_by u (snd (createIssueTree pk issues d u))))"
    using entry_or_complaint [of "next_answers u (sent_by u (snd (createIssueTree pk issues d u)))"]
    by simp
  then show "length (fst (createIssueTree pk issues d u)) +
        length (error_lines (new_events u (snd (createIssueTree pk issues d u)))) =
        sent_by u (snd (createIssueTree pk issues d u))"
    by (simp add: next_answers_def)
qed

lemma scenario_mixed:
  "createIssueTree ''ACME'' [issue_A, issue_B] (Some 0) (demo_loaded mixed_answers) =
     ([created_issue, third_issue], (demo_loaded mixed_answers)
       \<lparr>cursor := 4,
         trace := [Sent (issue_request ''ACME'' ''Story'' ''A'' (JStr [])
                      \<lparr> io_priority = None, io_labels = None, io_components = None, io_parentKey = None,
                        io_assigneeId = None, io_storyPoints = None, io_fields = None \<rparr> demo_config),
                   Log (IssueCreated (Some (JStr ''ACME-1'')) ''A''),
                   Sent (issue_request ''ACME'' ''Sub-task'' ''A1'' (JStr [])
                      \<lparr> io_priority = None, io_labels = None, io_components = None,
                        io_parentKey = Some (JStr ''ACME-1''),
                        io_assigneeId = None, io_storyPoints = None, io_fields = None \<rparr> demo_config),
                   Log (ErrorCreatingChild ''A1'' (message (HttpError 500 (units ''boom'')))),
                   Sent (issue_request ''ACME'' ''Sub-task'' ''A2'' (JStr [])
                      \<lparr> io_priority = None, io_labels = None, io_components = None,
                        io_parentKey = Some (JStr ''ACME-1''),
                        io_assigneeId = None, io_storyPoints = None, io_fields = None \<rparr> demo_config),
                   Log (IssueCreated (Some (JStr ''ACME-3'')) ''A2''),
                   Sent (issue_request ''ACME'' ''Story'' ''B'' (JStr [])
                      \<lparr> io_priority = None, io_labels = None, io_components = None, io_parentKey = None,
                        io_assigneeId = None, io_storyPoints = None, io_fields = None \<rparr> demo_config),
                   Log (ErrorCreating ''B'' (message (HttpError 500 (units ''boom''))))]\<rparr>)"
  by (simp add: createIssueTree_def issue_A_def issue_B_def leaf_issue_def
        createIssue_eval [where c = demo_config] demo_valid
        answers_status_def mixed_answers_def emit_def Let_def description_or_empty_def
        created_issue_def third_issue_def pause_def del: message.simps)

lemma boom_message: "message (HttpError 500 (units ''boom'')) = ''HTTP 500: boom''"
  by (simp add: message_ascii digits_of.simps char_of_eq_iff del: message.simps)

lemma demo_loaded_configured: "configured no_opts (demo_loaded a)"
  using configured_cached(1) [of "demo_loaded a" demo_config no_opts] demo_valid by simp

text \<open>
  A run over A (children A1, A2) and B (child B1) where A and A2 are created and A1 and B
  fail with status 500: four requests, two entries, two error lines, B1 never attempted;
  and the runs where the root A, an issue or a page, fails at once.
\<close>

theorem report_lists_created_only_witness:
  "fst (createIssueTree ''ACME'' [issue_A, issue_B] (Some 0) (demo_loaded mixed_answers)) =
     [created_issue, third_issue] \<and>
   error_lines (new_events (demo_loaded mixed_answers)
     (snd (createIssueTree ''ACME'' [issue_A, issue_B] (Some 0) (demo_loaded mixed_answers)))) =
     [(''A1'', ''HTTP 500: boom''), (''B'', ''HTTP 500: boom'')] \<and>
   attempted_issues (new_events (demo_loaded mixed_answers)
     (snd (createIssueTree ''ACME'' [issue_A, issue_B] (Some 0) (demo_loaded mixed_answers)))) =
     [''A'', ''A1'', ''A2'', ''B''] \<and>
   sent_by (demo_loaded mixed_answers)
     (snd (createIssueTree ''ACME'' [issue_A, issue_B] (Some 0) (demo_loaded mixed_answers))) = 4 \<and>
   entries (next_answers (demo_loaded mixed_answers) 4) = [created_issue, third_issue] \<and>
   complaints (next_answers (demo_loaded mixed_answers) 4) = [''HTTP 500: boom'', ''HTTP 500: boom''] \<and>
   fst (createIssueTree ''ACME'' [issue_A] (Some 0) (demo_loaded always_500)) = [] \<and>
   error_lines (new_events (demo_loaded always_500)
     (snd (createIssueTree ''ACME'' [issue_A] (Some 0) (demo_loaded always_500)))) =
     [(''A'', ''HTTP 500: boom'')] \<and>
   error_lines (new_events (demo_loaded always_500)
     (buildPageTree ''ENG'' (Some (JStr ''100'')) [page_A] (Some 0) (demo_loaded always_500))) =
     [(''A'', ''HTTP 500: boom'')] \<and>
   fst (create_children ''ACME'' created_issue 0 [leaf_issue ''A1'']
          ([created_issue], demo_loaded always_500)) = [created_issue]"
proof -
  let ?W = "demo_loaded mixed_answers"
  let ?Z = "demo_loaded always_500"
  let ?ioc = "\<lparr> io_priority = i_priority (leaf_issue ''A1''), io_labels = i_labels (leaf_issue ''A1''),
               io_components = i_components (leaf_issue ''A1''),
               io_parentKey = get_prop created_issue ''key'',
               io_assigneeId = None, io_storyPoints = None, io_fields = i_fields (leaf_issue ''A1'') \<rparr>"
  let ?cc = "createIssue ''ACME'' (or_str (i_type (leaf_issue ''A1'')) ''Sub-task'') (i_summary (leaf_issue ''A1''))
               (description_or_empty (i_description (leaf_issue ''A1''))) ?ioc ?Z"
  let ?io = "\<lparr> io_priority = i_priority issue_A, io_labels = i_labels issue_A,
               io_components = i_components issue_A, io_parentKey = None,
               io_assigneeId = None, io_storyPoints = None, io_fields = i_fields issue_A \<rparr>"
  let ?ci = "createIssue ''ACME'' (or_str (i_type issue_A) ''Story'') (i_summary issue_A)
               (description_or_empty (i_description issue_A)) ?io ?Z"
  let ?cp = "createPage ''ENG'' (p_title page_A) (p_body page_A) (Some (JStr ''100''))
               (case p_labels page_A of None \<Rightarrow> [] | Some ls \<Rightarrow> ls) ?Z"
  note t = report_lists_created_only [where pk = "''ACME''" and i = issue_A and rest = "[]" and d = "Some 0"
      and w = ?Z and e = "HttpError 500 (units ''boom'')" and ?w1.0 = "snd ?ci"
      and sk = "''ENG''" and p = page_A and pid = "Some (JStr ''100'')" and v = ?Z
      and f = "HttpError 500 (units ''boom'')" and ?v1.0 = "snd ?cp" and others = "[]" and dp = "Some 0"
      and issues = "[issue_A, issue_B]" and u = ?W
      and c = "leaf_issue ''A1''" and parent = created_issue and x = ?Z
      and g = "HttpError 500 (units ''boom'')" and ?x1.0 = "snd ?cc" and dc = 0 and siblings = "[]"
      and created = "[created_issue]"]
  note t1 = t [THEN conjunct1]
  note tc = t [THEN conjunct2, THEN conjunct1]
  note t2 = t [THEN conjunct2, THEN conjunct2, THEN conjunct1]
  note t5 = t [THEN conjunct2, THEN conjunct2, THEN conjunct2, THEN conjunct2, THEN conjunct2,
                THEN conjunct2, THEN conjunct2, THEN conjunct2]
  have "fst ?cc = Inl (HttpError 500 (units ''boom''))"
    by (simp add: leaf_issue_def createIssue_eval [where c = demo_config] demo_valid
          answers_status_def always_500_def Let_def del: message.simps)
  then have gc: "?cc = (Inl (HttpError 500 (units ''boom'')), snd ?cc)" by (simp add: prod_eq_iff)
  have 7: "fst (create_children ''ACME'' created_issue 0 [leaf_issue ''A1''] ([created_issue], ?Z)) =
             [created_issue]"
    using tc [THEN mp, OF gc] by simp
  have "fst ?ci = Inl (HttpError 500 (units ''boom''))"
    by (simp add: issue_A_def createIssue_eval [where c = demo_config] demo_valid
          answers_status_def always_500_def Let_def del: message.simps)
  then have gi: "?ci = (Inl (HttpError 500 (units ''boom'')), snd ?ci)" by (simp add: prod_eq_iff)
  have "fst ?cp = Inl (HttpError 500 (units ''boom''))"
    by (simp add: page_A_def createPage_eval [where c = demo_config] demo_valid
          answers_status_def always_500_def Let_def del: message.simps)
  then have gp: "?cp = (Inl (HttpError 500 (units ''boom'')), snd ?cp)" by (simp add: prod_eq_iff)
  have I: "createIssueTree ''ACME'' [issue_A] (Some 0) ?Z =
             createIssueTree ''ACME'' [] (Some 0)
               (emit [Log (ErrorCreating (i_summary issue_A) (message (HttpError 500 (units ''boom''))))] (snd ?ci))"
    using t1 [THEN mp, OF gi] .
  have P: "buildPageTree ''ENG'' (Some (JStr ''100'')) [page_A] (Some 0) ?Z =
             buildPageTree ''ENG'' (Some (JStr ''100'')) [] (Some 0)
               (emit [Log (ErrorCreating (p_title page_A) (message (HttpError 500 (units ''boom''))))] (snd ?cp))"
    using t2 [THEN mp, OF gp] .
  have h: "configured no_opts ?W \<and> (\<forall>n. \<not> answers_status ?W n 429)"
    by (simp add: demo_loaded_configured answers_status_def mixed_answers_def)
  note E = t5 [THEN mp, OF h]
  have four: "[0..<4] = [0, 1, 2, Suc 2]" by (simp add: upt_rec)
  have a: "entries (next_answers ?W 4) = [created_issue, third_issue]"
    "complaints (next_answers ?W 4) = [''HTTP 500: boom'', ''HTTP 500: boom'']"
    by (simp_all add: next_answers_def four mixed_answers_def issue_result_def boom_message
          created_issue_def third_issue_def del: message.simps)
  have s: "sent_by ?W (snd (createIssueTree ''ACME'' [issue_A, issue_B] (Some 0) ?W)) = 4"
    unfolding scenario_mixed by (simp add: sent_by_def)
  have 1: "fst (createIssueTree ''ACME'' [issue_A, issue_B] (Some 0) ?W) = [created_issue, third_issue]"
    using E a unfolding s by simp
  have "map snd (error_lines (new_events ?W (snd (createIssueTree ''ACME'' [issue_A, issue_B] (Some 0) ?W))))
          = [''HTTP 500: boom'', ''HTTP 500: boom'']"
    using E a unfolding s by simp
  have 2: "error_lines (new_events ?W (snd (createIssueTree ''ACME'' [issue_A, issue_B] (Some 0) ?W))) =
     [(''A1'', ''HTTP 500: boom''), (''B'', ''HTTP 500: boom'')]"
    unfolding scenario_mixed by (simp add: boom_message del: message.simps)
  have 3: "attempted_issues (new_events ?W (snd (createIssueTree ''ACME'' [issue_A, issue_B] (Some 0) ?W))) =
     [''A'', ''A1'', ''A2'', ''B'']"
    unfolding scenario_mixed by simp
  have 4: "fst (createIssueTree ''ACME'' [issue_A] (Some 0) ?Z) = []"
    unfolding I by (simp add: createIssueTree_def)
  have 5: "error_lines (new_events ?Z (snd (createIssueTree ''ACME'' [issue_A] (Some 0) ?Z))) =
     [(''A'', ''HTTP 500: boom'')]"
    unfolding scenario_A_issues by (simp add: boom_message del: message.simps)
  have 6: "error_lines (new_events ?Z (buildPageTree ''ENG'' (Some (JStr ''100'')) [page_A] (Some 0) ?Z)) =
     [(''A'', ''HTTP 500: boom'')]"
    unfolding scenario_A_pages by (simp add: boom_message del: message.simps)
  from 1 2 3 s a 4 5 6 7 show ?thesis by blast
qed

end
